theory Spec2Isabelle
  imports Main "HOL-Library.Word"
begin

section \<open>NetConsole: the client controller of console.js\<close>

text \<open>
  The client is single-threaded JavaScript. Its module variables, the elements of the page it
  touches and the NetC objects it allocates are one explicit state. Every function of
  console.js is a function on that state which returns what the function returned, or the
  exception it threw, next to the state it left behind (an assignment made before a throw
  persists, so a thrown exception carries its state too).

  Server code (a NetConsoleServer subclass, and the callbacks a server hands to showLogin) is
  not part of console.js. Each place where console.js calls into server code is the last
  statement of its function, so the state a function returns is the state in which the server
  code starts running; the call is recorded in the ghost field \<open>calls\<close>. Whatever the server
  then does, now or later, is a further call of a NetC method on an object it holds.
\<close>

subsection \<open>Strings and page elements\<close>

text \<open>A JavaScript string is a sequence of 16-bit code units.\<close>

type_synonym jschar = "16 word"
type_synonym jsstring = "jschar list"

definition js :: "string \<Rightarrow> jsstring" where
  "js cs = map (\<lambda>c. word_of_nat (of_char c)) cs"

text \<open>Child nodes of a paragraph: text nodes and br elements.\<close>

datatype node = TextNode jsstring | Br

text \<open>
  A p element under divOutput: its CSS class, its children, and the text its click listener
  copies to the clipboard (only the paragraphs made by appendCopyToken have one).
\<close>

record para =
  className :: string
  childNodes :: "node list"
  clipboard :: "jsstring option"

datatype server = Server nat

datatype callback = Callback nat

text \<open>The fields a NetC object adds to NetConsoleClient.\<close>

record netc =
  n_completed :: bool
  n_replace :: bool
  n_server :: "server option"
  n_login :: bool

text \<open>Calls from console.js into server code, in the order they are made.\<close>

datatype call =
    HandleInit server nat
  | HandleMessage server nat jsstring
  | LoginDone callback jsstring jsstring
  | LoginCancel callback

datatype error =
    Fault string nat
  | WrongState
  | TypeError

record dom =
  txtInput_value :: jsstring
  txtInput_disabled :: bool
  btnSend_disabled :: bool
  btnStop_disabled :: bool
  username_value :: jsstring
  password_value :: jsstring
  spnLoginSite :: "node list"
  divMainScreen_display :: string
  divLoginScreen_display :: string
  divOutput :: "para list"

text \<open>
  \<open>m_login_done\<close> and \<open>m_login_cancel\<close> hold the closures showLogin builds: the NetC object
  they captured as obj_alias and the server's own callback. \<open>heap\<close> holds the NetC objects in
  allocation order; an object is named by its index.
\<close>

record state = dom +
  m_processing :: bool
  m_stop_request :: bool
  m_login :: bool
  m_login_done :: "(nat \<times> callback) option"
  m_login_cancel :: "(nat \<times> callback) option"
  m_server :: "server option"
  heap :: "netc list"
  calls :: "call list"

type_synonym 'a result = "(error + 'a) \<times> state"

text \<open>The module as it stands after its top-level code has run, on a page \<open>d\<close>.\<close>

definition initial :: "dom \<Rightarrow> state" where
  "initial d =
     \<lparr> txtInput_value = txtInput_value d, txtInput_disabled = txtInput_disabled d,
       btnSend_disabled = btnSend_disabled d, btnStop_disabled = btnStop_disabled d,
       username_value = username_value d, password_value = password_value d,
       spnLoginSite = spnLoginSite d,
       divMainScreen_display = divMainScreen_display d,
       divLoginScreen_display = divLoginScreen_display d,
       divOutput = divOutput d,
       m_processing = True, m_stop_request = False, m_login = False,
       m_login_done = None, m_login_cancel = None, m_server = None,
       heap = [], calls = [] \<rparr>"

subsection \<open>Local functions\<close>

text \<open>
  The page is taken to hold every element console.js looks up, so the faults raised for a
  missing element have no branch here. Parameters have the types the functions check for
  (a string, a boolean), so the faults raised by those checks have no branch either.
\<close>

definition setEnableState :: "state \<Rightarrow> state" where
  "setEnableState s =
     (let mainEnable = (if m_processing s then False else True);
          stopEnable = (if m_processing s \<and> \<not> m_stop_request s then True else False);
          mainEnable = (if mainEnable then False else True);
          stopEnable = (if stopEnable then False else True)
      in s\<lparr> txtInput_disabled := mainEnable, btnSend_disabled := mainEnable,
             btnStop_disabled := stopEnable \<rparr>)"

definition clearConsole :: "state \<Rightarrow> state" where
  "clearConsole s = s\<lparr> divOutput := [] \<rparr>"

text \<open>\<open>t.indexOf("\u000a")\<close>: the index of the first occurrence, or -1.\<close>

fun indexOf :: "jsstring \<Rightarrow> jschar \<Rightarrow> int" where
  "indexOf [] c = - 1"
| "indexOf (x # xs) c =
     (if x = c then 0
      else (let r = indexOf xs c in if r < 0 then - 1 else r + 1))"

text \<open>
  The while loop of appendMessage: \<open>t\<close> is what is left of the text, \<open>acc\<close> the children
  appended to the new paragraph so far.
\<close>

function appendMessage_loop :: "jsstring \<Rightarrow> node list \<Rightarrow> error + node list" where
  "appendMessage_loop t acc =
     (if length t > 0 then
        (if hd t = 0xa then appendMessage_loop (drop 1 t) (acc @ [Br])
         else
           (let slen = indexOf t 0xa in
            if slen = 0 then Inl (Fault ''appendMessage'' 300)
            else
              (let slen = (if slen < 0 then int (length t) else slen) in
               appendMessage_loop (drop (nat slen) t)
                 (acc @ [TextNode (take (nat slen) t)]))))
      else Inr acc)"
  by pat_completeness auto
termination
  by (relation "measure (\<lambda>(t, acc). length t)") auto

declare appendMessage_loop.simps [simp del]

definition appendMessage :: "jsstring \<Rightarrow> bool \<Rightarrow> state \<Rightarrow> unit result" where
  "appendMessage t isServer s =
     (let t = (if \<not> isServer then [0xbb, 0x20] @ t else t) in
      case appendMessage_loop t [] of
        Inl e \<Rightarrow> (Inl e, s)
      | Inr ns \<Rightarrow>
          (Inr (),
           s\<lparr> divOutput := divOutput s @
                [\<lparr> className = (if isServer then ''server'' else ''client''),
                   childNodes = ns, clipboard = None \<rparr>] \<rparr>))"

definition appendCopyToken :: "jsstring \<Rightarrow> state \<Rightarrow> state" where
  "appendCopyToken t s =
     s\<lparr> divOutput := divOutput s @
          [\<lparr> className = ''token'', childNodes = [TextNode (js ''Copy to clipboard'')],
             clipboard = Some t \<rparr>] \<rparr>"

text \<open>\<open>new NetC()\<close>: a fresh object with every flag clear, named by the next free index.\<close>

definition new_NetC :: "state \<Rightarrow> nat \<times> state" where
  "new_NetC s =
     (length (heap s),
      s\<lparr> heap := heap s @
           [\<lparr> n_completed = False, n_replace = False, n_server = None, n_login = False \<rparr>] \<rparr>)"

text \<open>
  \<open>srv.handleInit(new NetC())\<close> and \<open>srv.handleMessage(new NetC(), msg)\<close> with \<open>srv\<close> the
  value of m_server: reading a property of undefined or null throws a TypeError before the
  argument is evaluated.
\<close>

definition call_handleInit :: "state \<Rightarrow> unit result" where
  "call_handleInit s =
     (case m_server s of
        None \<Rightarrow> (Inl TypeError, s)
      | Some srv \<Rightarrow>
          (let (c, s) = new_NetC s in (Inr (), s\<lparr> calls := calls s @ [HandleInit srv c] \<rparr>)))"

definition call_handleMessage :: "jsstring \<Rightarrow> state \<Rightarrow> unit result" where
  "call_handleMessage msg s =
     (case m_server s of
        None \<Rightarrow> (Inl TypeError, s)
      | Some srv \<Rightarrow>
          (let (c, s) = new_NetC s
           in (Inr (), s\<lparr> calls := calls s @ [HandleMessage srv c msg] \<rparr>)))"

definition handleStop :: "state \<Rightarrow> unit result" where
  "handleStop s =
     (if m_login s then (Inr (), s)
      else if \<not> m_processing s then (Inr (), s)
      else if m_stop_request s then (Inr (), s)
      else
        (let s = s\<lparr> m_stop_request := True \<rparr>;
             s = setEnableState s
         in appendMessage (js ''Client requested a STOP... '' @ [0xab]) False s))"

definition handleSend :: "state \<Rightarrow> unit result" where
  "handleSend s =
     (if m_login s then (Inr (), s)
      else if m_processing s then (Inr (), s)
      else
        (let msg = txtInput_value s in
         case appendMessage msg False s of
           (Inl e, s) \<Rightarrow> (Inl e, s)
         | (Inr _, s) \<Rightarrow>
             (let s = s\<lparr> m_processing := True, m_stop_request := False \<rparr>;
                  s = setEnableState s
              in call_handleMessage msg s)))"

text \<open>
  doLogin is only called by showLogin, with a string and two functions, so its parameter
  check has no branch here. \<open>fdone\<close> and \<open>fcancel\<close> are the two closures built by showLogin.
\<close>

definition doLogin ::
  "jsstring \<Rightarrow> nat \<times> callback \<Rightarrow> nat \<times> callback \<Rightarrow> state \<Rightarrow> unit result" where
  "doLogin site fdone fcancel s =
     (if m_login s then (Inl (Fault ''doLogin'' 50), s)
      else
        (Inr (),
         s\<lparr> m_login := True, m_login_done := Some fdone, m_login_cancel := Some fcancel,
            username_value := [], password_value := [],
            spnLoginSite := [TextNode site],
            divMainScreen_display := ''none'', divLoginScreen_display := ''block'' \<rparr>))"

text \<open>
  The closures stored by doLogin, run: \<open>obj_alias._login = false\<close>, then the server's own
  callback, as the last statement.
\<close>

definition call_login_done :: "jsstring \<Rightarrow> jsstring \<Rightarrow> state \<Rightarrow> unit result" where
  "call_login_done a b s =
     (case m_login_done s of
        None \<Rightarrow> (Inl TypeError, s)
      | Some (obj_alias, fdone) \<Rightarrow>
          (let s = s\<lparr> heap := (heap s)[obj_alias := (heap s ! obj_alias)\<lparr> n_login := False \<rparr>] \<rparr>
           in (Inr (), s\<lparr> calls := calls s @ [LoginDone fdone a b] \<rparr>)))"

definition call_login_cancel :: "state \<Rightarrow> unit result" where
  "call_login_cancel s =
     (case m_login_cancel s of
        None \<Rightarrow> (Inl TypeError, s)
      | Some (obj_alias, fcancel) \<Rightarrow>
          (let s = s\<lparr> heap := (heap s)[obj_alias := (heap s ! obj_alias)\<lparr> n_login := False \<rparr>] \<rparr>
           in (Inr (), s\<lparr> calls := calls s @ [LoginCancel fcancel] \<rparr>)))"

text \<open>
  The two boxes are read before they are cleared; what was read is only used for the login
  button (\<open>rtype\<close> true).
\<close>

definition handleLoginResponse :: "bool \<Rightarrow> state \<Rightarrow> unit result" where
  "handleLoginResponse rtype s =
     (if \<not> m_login s then (Inr (), s)
      else
        (let strName = username_value s;
             strPass = password_value s;
             s = s\<lparr> username_value := [], password_value := [] \<rparr>;
             s = s\<lparr> divLoginScreen_display := ''none'', divMainScreen_display := ''block'' \<rparr>;
             s = s\<lparr> m_login := False \<rparr>
         in if rtype then call_login_done strName strPass s else call_login_cancel s))"

subsection \<open>The NetConsoleClient subclass NetC\<close>

text \<open>
  The check every method starts with:
  \<open>(!m_processing) || this._completed || this._login\<close>, where \<open>this\<close> is the object \<open>i\<close>.
\<close>

definition wrong_state :: "nat \<Rightarrow> state \<Rightarrow> bool" where
  "wrong_state i s \<longleftrightarrow>
     \<not> m_processing s \<or> n_completed (heap s ! i) \<or> n_login (heap s ! i)"

definition NetC_checkStop :: "nat \<Rightarrow> state \<Rightarrow> bool result" where
  "NetC_checkStop i s =
     (if wrong_state i s then (Inl WrongState, s) else (Inr (m_stop_request s), s))"

text \<open>The parameter is a server by its type, so the instanceof check has no branch here.\<close>

definition NetC_updateServer :: "nat \<Rightarrow> server \<Rightarrow> state \<Rightarrow> unit result" where
  "NetC_updateServer i srv s =
     (if wrong_state i s then (Inl WrongState, s)
      else
        (Inr (),
         s\<lparr> heap := (heap s)[i := (heap s ! i)\<lparr> n_replace := True, n_server := Some srv \<rparr>] \<rparr>))"

definition NetC_showLogin ::
  "nat \<Rightarrow> jsstring \<Rightarrow> callback \<Rightarrow> callback \<Rightarrow> state \<Rightarrow> unit result" where
  "NetC_showLogin i site fdone fcancel s =
     (if wrong_state i s then (Inl WrongState, s)
      else
        (let s = s\<lparr> heap := (heap s)[i := (heap s ! i)\<lparr> n_login := True \<rparr>] \<rparr>
         in doLogin site (i, fdone) (i, fcancel) s))"

definition NetC_cls :: "nat \<Rightarrow> state \<Rightarrow> unit result" where
  "NetC_cls i s =
     (if wrong_state i s then (Inl WrongState, s) else (Inr (), clearConsole s))"

definition NetC_print :: "nat \<Rightarrow> jsstring \<Rightarrow> state \<Rightarrow> unit result" where
  "NetC_print i msg s =
     (if wrong_state i s then (Inl WrongState, s) else appendMessage msg True s)"

definition NetC_token :: "nat \<Rightarrow> jsstring \<Rightarrow> state \<Rightarrow> unit result" where
  "NetC_token i tkstr s =
     (if wrong_state i s then (Inl WrongState, s) else (Inr (), appendCopyToken tkstr s))"

definition NetC_complete :: "nat \<Rightarrow> state \<Rightarrow> unit result" where
  "NetC_complete i s =
     (if wrong_state i s then (Inl WrongState, s)
      else
        (let s = s\<lparr> heap := (heap s)[i := (heap s ! i)\<lparr> n_completed := True \<rparr>] \<rparr>;
             s = s\<lparr> m_processing := False, m_stop_request := False \<rparr>;
             s = setEnableState s;
             s = s\<lparr> txtInput_value := [] \<rparr>
         in if n_replace (heap s ! i) then
              (let s = s\<lparr> m_processing := True, m_stop_request := False \<rparr>;
                   s = setEnableState s;
                   s = s\<lparr> m_server := n_server (heap s ! i) \<rparr>
               in call_handleInit s)
            else (Inr (), s)))"

subsection \<open>Page load and events\<close>

text \<open>
  \<open>boot\<close> is the server bootConsole() returns. handleLoad also connects the four buttons to
  their handlers, which is why no click can happen before it; it runs once, when the
  document has loaded.
\<close>

definition handleLoad :: "server \<Rightarrow> state \<Rightarrow> unit result" where
  "handleLoad boot s =
     (let s = s\<lparr> m_server := Some boot \<rparr>;
          s = setEnableState s
      in call_handleInit s)"

text \<open>
  What can happen after the page has loaded: a click on one of the four buttons, the user
  editing one of the three input boxes, and server code calling a method of a NetC object.
  Clicks and edits are allowed whether or not the control is disabled, and a method may be
  called on any object at any time: more than a browser and a server can do, not less.
\<close>

datatype event =
    Click_btnSend
  | Click_btnStop
  | Click_btnLogin
  | Click_btnLoginCancel
  | Edit_txtInput jsstring
  | Edit_username jsstring
  | Edit_password jsstring
  | CheckStop nat
  | UpdateServer nat server
  | ShowLogin nat jsstring callback callback
  | Cls nat
  | Print nat jsstring
  | Token nat jsstring
  | Complete nat

text \<open>The object a method event is called on, if it is one.\<close>

fun receiver :: "event \<Rightarrow> nat option" where
  "receiver (CheckStop i) = Some i"
| "receiver (UpdateServer i srv) = Some i"
| "receiver (ShowLogin i site fdone fcancel) = Some i"
| "receiver (Cls i) = Some i"
| "receiver (Print i msg) = Some i"
| "receiver (Token i tkstr) = Some i"
| "receiver (Complete i) = Some i"
| "receiver e = None"

text \<open>
  One event, with what its handler returned or threw. Server code can only call a method of
  an object that exists.
\<close>

fun fire :: "event \<Rightarrow> state \<Rightarrow> unit result" where
  "fire Click_btnSend s = handleSend s"
| "fire Click_btnStop s = handleStop s"
| "fire Click_btnLogin s = handleLoginResponse True s"
| "fire Click_btnLoginCancel s = handleLoginResponse False s"
| "fire (Edit_txtInput v) s = (Inr (), s\<lparr> txtInput_value := v \<rparr>)"
| "fire (Edit_username v) s = (Inr (), s\<lparr> username_value := v \<rparr>)"
| "fire (Edit_password v) s = (Inr (), s\<lparr> password_value := v \<rparr>)"
| "fire (CheckStop i) s = (case NetC_checkStop i s of (r, s) \<Rightarrow> (map_sum id (\<lambda>_. ()) r, s))"
| "fire (UpdateServer i srv) s = NetC_updateServer i srv s"
| "fire (ShowLogin i site fdone fcancel) s = NetC_showLogin i site fdone fcancel s"
| "fire (Cls i) s = NetC_cls i s"
| "fire (Print i msg) s = NetC_print i msg s"
| "fire (Token i tkstr) s = NetC_token i tkstr s"
| "fire (Complete i) s = NetC_complete i s"

definition step :: "event \<Rightarrow> state \<Rightarrow> state" where
  "step e s =
     (case receiver e of
        Some i \<Rightarrow> (if i < length (heap s) then snd (fire e s) else s)
      | None \<Rightarrow> snd (fire e s))"

fun run :: "event list \<Rightarrow> state \<Rightarrow> state" where
  "run [] s = s"
| "run (e # es) s = run es (step e s)"

text \<open>The state in which the boot server's handleInit starts running.\<close>

definition booted :: "server \<Rightarrow> dom \<Rightarrow> state" where
  "booted boot d = snd (handleLoad boot (initial d))"

section \<open>The remote server: session table and transactions\<close>

subsection \<open>The ssn table of netc_createdb.pl\<close>

type_synonym bytes = "8 word list"

text \<open>
  A row of the table ssn. Every column is NOT NULL. The foreign key on usrid is left out:
  nothing proved below depends on the usr table.
\<close>

record ssn =
  ssnid :: int
  ssncode :: int
  ssntime :: int
  ssnkey :: bytes
  usrid :: int

datatype db_error = ConstraintFailed

text \<open>
  INSERT under the constraints the script declares: ssnid is the primary key, ssncode is
  UNIQUE (and has the unique index ix_ssn_code). The script declares no CHECK on the value of
  ssncode.
\<close>

definition ssn_insert :: "ssn \<Rightarrow> ssn list \<Rightarrow> db_error + ssn list" where
  "ssn_insert row tbl =
     (if ssnid row \<in> set (map ssnid tbl) \<or> ssncode row \<in> set (map ssncode tbl)
      then Inl ConstraintFailed
      else Inr (tbl @ [row]))"

definition ssn_delete :: "int \<Rightarrow> ssn list \<Rightarrow> ssn list" where
  "ssn_delete code tbl = filter (\<lambda>r. ssncode r \<noteq> code) tbl"

text \<open>UPDATE ssn SET ssntime, ssnkey WHERE ssncode = code.\<close>

definition ssn_update :: "int \<Rightarrow> int \<Rightarrow> bytes \<Rightarrow> ssn list \<Rightarrow> ssn list" where
  "ssn_update code now key tbl =
     map (\<lambda>r. if ssncode r = code then r\<lparr> ssntime := now, ssnkey := key \<rparr> else r) tbl"

subsection \<open>NetC::Remote\<close>

text \<open>
  Every sub of src/NetC/Remote.pm has the body \<open># @@TODO:\<close>; only the documented
  declarations are there. What follows is what the specification says of session creation
  and of the context of a transaction. The message authentication code and the random draws
  are parameters.
\<close>

text \<open>
  Modelled from the spec: the creation of a session at a successful login, missing from
  NetC::Remote. "Session{id, code (0..16777215, CSPRNG, unique), lastActivityMinute (epoch
  minutes), rotatingKey (128-bit CSPRNG, base64), userId}": the code is a draw of the
  generator in 0..16777215, that is 24 random bits; the row is then inserted under the
  constraints of the table, a new id being one more than the largest in use.
\<close>

definition create_session :: "24 word \<Rightarrow> bytes \<Rightarrow> int \<Rightarrow> int \<Rightarrow> ssn list \<Rightarrow> db_error + ssn list" where
  "create_session draw key now usr tbl =
     ssn_insert
       \<lparr> ssnid = foldr max (map ssnid tbl) 0 + 1, ssncode = uint draw, ssntime = now,
         ssnkey = key, usrid = usr \<rparr> tbl"

text \<open>What the remote server does to the session table.\<close>

datatype ssn_op =
    Create "24 word" bytes int int
  | Close int
  | Touch int int bytes

fun ssn_apply :: "ssn_op \<Rightarrow> ssn list \<Rightarrow> ssn list" where
  "ssn_apply (Create draw key now usr) tbl =
     (case create_session draw key now usr tbl of Inl e \<Rightarrow> tbl | Inr tbl' \<Rightarrow> tbl')"
| "ssn_apply (Close code) tbl = ssn_delete code tbl"
| "ssn_apply (Touch code now key) tbl = ssn_update code now key tbl"

fun ssn_run :: "ssn_op list \<Rightarrow> ssn list \<Rightarrow> ssn list" where
  "ssn_run [] tbl = tbl"
| "ssn_run (x # xs) tbl = ssn_run xs (ssn_apply x tbl)"

text \<open>
  Modelled from the spec: the digits of a session code, missing from NetC::Remote. "code
  must fit in 4 base-64 digits": the four digits of a code, most significant first, and the
  number a list of base-64 digits stands for.
\<close>

definition base64_digits4 :: "int \<Rightarrow> int list" where
  "base64_digits4 c = [c div 262144 mod 64, c div 4096 mod 64, c div 64 mod 64, c mod 64]"

definition base64_value :: "int list \<Rightarrow> int" where
  "base64_value ds = foldl (\<lambda>a d. a * 64 + d) 0 ds"

definition base64_digit :: "int \<Rightarrow> bool" where
  "base64_digit d \<longleftrightarrow> 0 \<le> d \<and> d < 64"

datatype procType = nop | hello | message | credential | resume | logout

datatype remote_error = SessionInvalid | Fatal

record request =
  rq_code :: int
  rq_context :: bytes
  rq_tag :: bytes

record response =
  rs_context :: bytes
  rs_tag :: bytes

record txn =
  t_code :: int
  t_procType :: procType
  t_context :: bytes

text \<open>
  Modelled from the spec: steps 1 to 3 of the per-request algorithm, missing from
  NetC::Remote (sub cgi). "Resolve session by code; if absent or expired (idle beyond
  timeout), treat as session-invalid. Recompute the expected authentication tag over the
  received context using the session's current rotating key; reject (session-invalid) on
  mismatch." A session is expired when its timestamp is at least \<open>session_time\<close> minutes in
  the past. The context is "empty at hello". The classification of step 4 is not modelled:
  its result \<open>ptype\<close> is a parameter.
\<close>

definition Remote_cgi ::
  "(bytes \<Rightarrow> bytes \<Rightarrow> bytes) \<Rightarrow> int \<Rightarrow> int \<Rightarrow> procType \<Rightarrow> request \<Rightarrow> ssn list \<Rightarrow>
   remote_error + txn" where
  "Remote_cgi hmac session_time now ptype rq tbl =
     (case find (\<lambda>r. ssncode r = rq_code rq) tbl of
        None \<Rightarrow> Inl SessionInvalid
      | Some row \<Rightarrow>
          (if now - ssntime row \<ge> session_time then Inl SessionInvalid
           else if hmac (ssnkey row) (rq_context rq) \<noteq> rq_tag rq then Inl SessionInvalid
           else
             Inr \<lparr> t_code = rq_code rq, t_procType = ptype,
                   t_context = (if ptype = hello then [] else rq_context rq) \<rparr>))"

text \<open>
  Modelled from the spec: the accessor context of NetC::Remote, missing (sub context).
  "read/write context (unavailable under nop)"; called without a parameter it returns the
  current context, with a parameter the parameter becomes the new context.
\<close>

definition Remote_context :: "bytes option \<Rightarrow> txn \<Rightarrow> remote_error + bytes \<times> txn" where
  "Remote_context new_context t =
     (if t_procType t = nop then Inl Fatal
      else
        (case new_context of
           None \<Rightarrow> Inr (t_context t, t)
         | Some c \<Rightarrow> Inr (c, t\<lparr> t_context := c \<rparr>)))"

text \<open>
  Modelled from the spec: step 7 of the per-request algorithm, missing from NetC::Remote
  (sub complete). "serializes ... the (possibly rewritten) context re-authenticated under a
  freshly rotated key ...; persists the new key and updated activity timestamp". \<open>key\<close> is
  the fresh key. A logout ends the session.
\<close>

definition Remote_complete ::
  "(bytes \<Rightarrow> bytes \<Rightarrow> bytes) \<Rightarrow> int \<Rightarrow> bytes \<Rightarrow> txn \<Rightarrow> ssn list \<Rightarrow> response \<times> ssn list" where
  "Remote_complete hmac now key t tbl =
     (\<lparr> rs_context = t_context t, rs_tag = hmac key (t_context t) \<rparr>,
      if t_procType t = logout then ssn_delete (t_code t) tbl
      else ssn_update (t_code t) now key tbl)"

subsection \<open>Notions used to state the properties\<close>

text \<open>
  What print is specified to show: one br per U+000A and one text node per maximal nonempty
  run of other characters, in order. \<open>r\<close> is the run read so far.
\<close>

fun pieces_run :: "jsstring \<Rightarrow> jsstring \<Rightarrow> node list" where
  "pieces_run r [] = (if r = [] then [] else [TextNode r])"
| "pieces_run r (c # cs) =
     (if c = 0xa then (if r = [] then [] else [TextNode r]) @ Br # pieces_run [] cs
      else pieces_run (r @ [c]) cs)"

definition line_pieces :: "jsstring \<Rightarrow> node list" where
  "line_pieces msg = pieces_run [] msg"

text \<open>The characters a node stands for.\<close>

fun node_text :: "node \<Rightarrow> jsstring" where
  "node_text (TextNode x) = x"
| "node_text Br = [0xa]"

text \<open>
  Every text node is nonempty, holds no U+000A and is not followed by another text node.
\<close>

fun maximal_runs :: "node list \<Rightarrow> bool" where
  "maximal_runs [] = True"
| "maximal_runs (Br # ns) = maximal_runs ns"
| "maximal_runs (TextNode x # ns) =
     (x \<noteq> [] \<and> 0xa \<notin> set x \<and> (case ns of TextNode y # _ \<Rightarrow> False | _ \<Rightarrow> True) \<and>
      maximal_runs ns)"

text \<open>Calls that start a server operation, as opposed to the callbacks of a login dialog.\<close>

fun handler_call :: "call \<Rightarrow> bool" where
  "handler_call (HandleInit srv c) = True"
| "handler_call (HandleMessage srv c msg) = True"
| "handler_call (LoginDone f a b) = False"
| "handler_call (LoginCancel f) = False"

text \<open>
  Every handleInit and handleMessage call is given a NetC object of its own, and the operation
  it starts is outstanding until complete() has succeeded on that object.
\<close>

definition outstanding :: "state \<Rightarrow> nat" where
  "outstanding s = length (filter (\<lambda>ob. \<not> n_completed ob) (heap s))"

text \<open>A page with empty boxes, an empty console and no inline styles.\<close>

definition blank_page :: dom where
  "blank_page =
     \<lparr> txtInput_value = [], txtInput_disabled = False, btnSend_disabled = False,
       btnStop_disabled = False, username_value = [], password_value = [],
       spnLoginSite = [], divMainScreen_display = [], divLoginScreen_display = [],
       divOutput = [] \<rparr>"

text \<open>
  The shape of the states the controller can be in: while processing, the last NetC object is
  the only one not completed, and the login flag of the module is the login flag of that
  object; while idle, every object is completed and no login or stop request is pending.
\<close>

definition coherent :: "state \<Rightarrow> bool" where
  "coherent s \<longleftrightarrow>
     m_server s \<noteq> None \<and>
     list_all (\<lambda>ob. n_replace ob \<longrightarrow> n_server ob \<noteq> None) (heap s) \<and>
     (if m_processing s then
        (\<exists>h ob. heap s = h @ [ob] \<and> list_all n_completed h \<and> \<not> n_completed ob \<and>
           n_login ob = m_login s \<and>
           (m_login s \<longrightarrow> (\<exists>fd fc. m_login_done s = Some (length h, fd) \<and>
                                  m_login_cancel s = Some (length h, fc))))
      else list_all n_completed (heap s) \<and> \<not> m_login s \<and> \<not> m_stop_request s)"

text \<open>A login dialog opened by object \<open>i\<close> with callbacks \<open>fd\<close> and \<open>fc\<close> is showing.\<close>

definition login_window :: "nat \<Rightarrow> callback \<Rightarrow> callback \<Rightarrow> state \<Rightarrow> bool" where
  "login_window i fd fc s \<longleftrightarrow>
     i < length (heap s) \<and> m_login s \<and> n_login (heap s ! i) \<and>
     m_login_done s = Some (i, fd) \<and> m_login_cancel s = Some (i, fc)"

text \<open>
  While an operation is in flight, its object \<open>j\<close> is the last one allocated. Any event other
  than complete() on \<open>j\<close> leaves the operation in flight, starts no server operation, and
  leaves the pending replacement of \<open>j\<close> alone unless it is updateServer on \<open>j\<close>.
\<close>

definition in_flight :: "nat \<Rightarrow> state \<Rightarrow> bool" where
  "in_flight j s \<longleftrightarrow> coherent s \<and> m_processing s \<and> Suc j = length (heap s)"

text \<open>The session codes of a table are pairwise distinct and in range.\<close>

definition codes_ok :: "ssn list \<Rightarrow> bool" where
  "codes_ok tbl \<longleftrightarrow>
     distinct (map ssncode tbl) \<and> (\<forall>r \<in> set tbl. 0 \<le> ssncode r \<and> ssncode r \<le> 16777215)"

section \<open>Properties of appendMessage\<close>

lemma indexOf_lower: "- 1 \<le> indexOf t c"
  by (induction t) (auto simp: Let_def)

lemma indexOf_takeWhile:
  "indexOf t c = (if c \<in> set t then int (length (takeWhile (\<lambda>x. x \<noteq> c) t)) else - 1)"
  by (induction t) (auto simp: Let_def)

lemma indexOf_nonzero:
  assumes "t \<noteq> []" "hd t \<noteq> c"
  shows "indexOf t c \<noteq> 0"
  using assms indexOf_lower [of "tl t" c] by (cases t) (auto simp: Let_def)

lemma pieces_run_split:
  "0xa \<notin> set r \<Longrightarrow> r \<noteq> [] \<Longrightarrow>
   pieces_run r t =
     TextNode (r @ takeWhile (\<lambda>x. x \<noteq> 0xa) t) # pieces_run [] (dropWhile (\<lambda>x. x \<noteq> 0xa) t)"
  by (induction t arbitrary: r) auto

lemma pieces_run_append:
  "0xa \<notin> set x \<Longrightarrow> pieces_run r (x @ t) = pieces_run (r @ x) t"
  by (induction x arbitrary: r) auto

lemma line_pieces_Cons_text:
  assumes "c \<noteq> 0xa"
  shows "line_pieces (c # cs) =
         TextNode (takeWhile (\<lambda>x. x \<noteq> 0xa) (c # cs)) #
         line_pieces (dropWhile (\<lambda>x. x \<noteq> 0xa) (c # cs))"
  using assms pieces_run_split [of "[c]" cs] by (simp add: line_pieces_def)

lemma slen_takeWhile:
  assumes "t \<noteq> []" "hd t \<noteq> 0xa"
  shows "nat (if indexOf t 0xa < 0 then int (length t) else indexOf t 0xa) =
         length (takeWhile (\<lambda>x. x \<noteq> 0xa) t)"
proof (cases "0xa \<in> set t")
  case True
  then show ?thesis by (simp add: indexOf_takeWhile)
next
  case False
  then have tw: "takeWhile (\<lambda>x. x \<noteq> 0xa) t = t"
    by (intro takeWhile_eq_all_conv [THEN iffD2]) auto
  show ?thesis by (simp add: indexOf_takeWhile False tw)
qed

text \<open>The loop never reaches its fault, and appends exactly the specified pieces.\<close>

lemma loop_pieces: "appendMessage_loop t acc = Inr (acc @ line_pieces t)"
proof (induction t acc rule: appendMessage_loop.induct)
  case (1 t acc)
  show ?case
  proof (cases t)
    case Nil
    then show ?thesis by (simp add: appendMessage_loop.simps line_pieces_def)
  next
    case (Cons c cs)
    show ?thesis
    proof (cases "c = 0xa")
      case True
      with Cons 1(1) show ?thesis
        by (subst appendMessage_loop.simps) (simp add: line_pieces_def)
    next
      case False
      let ?P = "\<lambda>x. x \<noteq> (0xa :: jschar)"
      let ?slen = "if indexOf t 0xa < 0 then int (length t) else indexOf t 0xa"
      have ne: "t \<noteq> []" "hd t \<noteq> 0xa" using Cons False by simp_all
      have nz: "indexOf t 0xa \<noteq> 0" using ne by (rule indexOf_nonzero)
      have n: "nat ?slen = length (takeWhile ?P t)" using ne by (rule slen_takeWhile)
      have ih: "appendMessage_loop (drop (nat ?slen) t) (acc @ [TextNode (take (nat ?slen) t)]) =
                Inr ((acc @ [TextNode (take (nat ?slen) t)]) @ line_pieces (drop (nat ?slen) t))"
        using ne nz by (intro 1(2)) simp_all
      have tk: "take (nat ?slen) t = takeWhile ?P t"
        unfolding n by (rule takeWhile_eq_take [symmetric])
      have dr: "drop (nat ?slen) t = dropWhile ?P t"
        unfolding n by (rule dropWhile_eq_drop [symmetric])
      have lp: "line_pieces t = TextNode (takeWhile ?P t) # line_pieces (dropWhile ?P t)"
        unfolding Cons using False by (rule line_pieces_Cons_text)
      have "appendMessage_loop t acc =
            appendMessage_loop (drop (nat ?slen) t) (acc @ [TextNode (take (nat ?slen) t)])"
        using ne nz by (subst appendMessage_loop.simps) (simp add: Let_def)
      also note ih
      finally show ?thesis by (simp add: tk dr lp)
    qed
  qed
qed

lemma concat_pieces_run: "concat (map node_text (pieces_run r t)) = r @ t"
  by (induction t arbitrary: r) auto

lemma maximal_runs_pieces_run: "0xa \<notin> set r \<Longrightarrow> maximal_runs (pieces_run r t)"
  by (induction t arbitrary: r) auto

lemma count_br_pieces_run:
  "length (filter (\<lambda>n. n = Br) (pieces_run r t)) = length (filter (\<lambda>c. c = 0xa) t)"
  by (induction t arbitrary: r) auto

lemma maximal_runs_unique:
  "maximal_runs ns \<Longrightarrow> concat (map node_text ns) = t \<Longrightarrow> ns = line_pieces t"
proof (induction ns arbitrary: t rule: maximal_runs.induct)
  case 1
  then show ?case by (simp add: line_pieces_def)
next
  case (2 ns)
  then show ?case by (auto simp: line_pieces_def)
next
  case (3 x ns)
  from 3(2) have x: "x \<noteq> []" "0xa \<notin> set x" and mr: "maximal_runs ns" by simp_all
  have ih: "ns = line_pieces (concat (map node_text ns))" using mr by (intro 3(1)) simp_all
  have t: "t = x @ concat (map node_text ns)" using 3(3) by simp
  have "line_pieces t = pieces_run x (concat (map node_text ns))"
    unfolding t line_pieces_def using x(2) pieces_run_append [of x "[]"] by simp
  also have "\<dots> = TextNode x # line_pieces (concat (map node_text ns))"
  proof (cases ns)
    case Nil
    then show ?thesis using x by (simp add: line_pieces_def)
  next
    case (Cons n ns')
    with 3(2) have "n = Br" by (cases n) simp_all
    with Cons x show ?thesis by (simp add: line_pieces_def)
  qed
  finally show ?case using ih by simp
qed

lemma appendMessage_eq:
  "appendMessage t isServer s =
     (Inr (),
      s\<lparr> divOutput := divOutput s @
           [\<lparr> className = (if isServer then ''server'' else ''client''),
              childNodes = line_pieces (if isServer then t else [0xbb, 0x20] @ t),
              clipboard = None \<rparr>] \<rparr>)"
  by (simp add: appendMessage_def loop_pieces Let_def)

lemmas ctl_defs = handleSend_def handleStop_def handleLoginResponse_def doLogin_def
  call_login_done_def call_login_cancel_def call_handleInit_def call_handleMessage_def
  new_NetC_def setEnableState_def clearConsole_def appendCopyToken_def appendMessage_eq
  NetC_checkStop_def NetC_updateServer_def NetC_showLogin_def NetC_cls_def NetC_print_def
  NetC_token_def NetC_complete_def wrong_state_def step_def Let_def

lemmas boot_defs = booted_def handleLoad_def initial_def blank_page_def

text \<open>
  C7. For every string passed to print on an object in the right state, the paragraph
  appended to the output has class server and holds exactly the specified pieces: read back,
  with each br as U+000A, they spell the message; each text node is a maximal nonempty run
  without U+000A; no other list of nodes has these two properties; and there are as many br
  elements as the message has U+000A characters. Text nodes hold their characters as they
  are, so nothing else is interpreted.
\<close>

theorem C7_print_renders_line_breaks:
  assumes "\<not> wrong_state i s"
  shows "NetC_print i msg s =
           (Inr (),
            s\<lparr> divOutput := divOutput s @
                 [\<lparr> className = ''server'', childNodes = line_pieces msg,
                    clipboard = None \<rparr>] \<rparr>) \<and>
         concat (map node_text (line_pieces msg)) = msg \<and>
         maximal_runs (line_pieces msg) \<and>
         (\<forall>ns. maximal_runs ns \<and> concat (map node_text ns) = msg \<longrightarrow> ns = line_pieces msg) \<and>
         length (filter (\<lambda>n. n = Br) (line_pieces msg)) = length (filter (\<lambda>c. c = 0xa) msg)"
proof -
  have "NetC_print i msg s =
           (Inr (),
            s\<lparr> divOutput := divOutput s @
                 [\<lparr> className = ''server'', childNodes = line_pieces msg,
                    clipboard = None \<rparr>] \<rparr>)"
    using assms by (simp add: NetC_print_def appendMessage_eq)
  moreover have "concat (map node_text (line_pieces msg)) = msg"
    by (simp add: line_pieces_def concat_pieces_run)
  moreover have "maximal_runs (line_pieces msg)"
    by (simp add: line_pieces_def maximal_runs_pieces_run)
  moreover have "\<forall>ns. maximal_runs ns \<and> concat (map node_text ns) = msg \<longrightarrow> ns = line_pieces msg"
    using maximal_runs_unique by blast
  moreover have "length (filter (\<lambda>n. n = Br) (line_pieces msg)) = length (filter (\<lambda>c. c = 0xa) msg)"
    by (simp add: line_pieces_def count_br_pieces_run)
  ultimately show ?thesis by blast
qed

theorem C7_print_witness:
  "\<not> wrong_state 0 (booted (Server 0) blank_page) \<and>
   divOutput (snd (NetC_print 0 [0x48, 0x69, 0xa, 0xa, 0x3c, 0x62, 0x3e]
                     (booted (Server 0) blank_page))) =
     [\<lparr> className = ''server'',
        childNodes = [TextNode [0x48, 0x69], Br, Br, TextNode [0x3c, 0x62, 0x3e]],
        clipboard = None \<rparr>]"
proof -
  have w: "\<not> wrong_state 0 (booted (Server 0) blank_page)"
    by (simp add: boot_defs ctl_defs)
  show ?thesis
    using w C7_print_renders_line_breaks [OF w, of "[0x48, 0x69, 0xa, 0xa, 0x3c, 0x62, 0x3e]"]
    by (simp add: line_pieces_def) (simp add: boot_defs ctl_defs)
qed

section \<open>Properties of the controller\<close>

lemma nth_update_fields [simp]:
  "i < length h \<Longrightarrow> n_completed (h[a := (h ! a)\<lparr> n_login := b \<rparr>] ! i) = n_completed (h ! i)"
  "i < length h \<Longrightarrow> n_replace (h[a := (h ! a)\<lparr> n_login := b \<rparr>] ! i) = n_replace (h ! i)"
  "i < length h \<Longrightarrow> n_server (h[a := (h ! a)\<lparr> n_login := b \<rparr>] ! i) = n_server (h ! i)"
  "i < length h \<Longrightarrow> n_login (h[a := (h ! a)\<lparr> n_completed := b \<rparr>] ! i) = n_login (h ! i)"
  "i < length h \<Longrightarrow> n_replace (h[a := (h ! a)\<lparr> n_completed := b \<rparr>] ! i) = n_replace (h ! i)"
  "i < length h \<Longrightarrow> n_server (h[a := (h ! a)\<lparr> n_completed := b \<rparr>] ! i) = n_server (h ! i)"
  "i < length h \<Longrightarrow>
   n_completed (h[a := (h ! a)\<lparr> n_replace := True, n_server := v \<rparr>] ! i) = n_completed (h ! i)"
  "i < length h \<Longrightarrow>
   n_login (h[a := (h ! a)\<lparr> n_replace := True, n_server := v \<rparr>] ! i) = n_login (h ! i)"
  by (cases "a = i"; simp)+

text \<open>Once an object is completed it stays completed, whatever happens.\<close>

lemma completed_step:
  assumes "i < length (heap s)" "n_completed (heap s ! i)"
  shows "i < length (heap (step e s)) \<and> n_completed (heap (step e s) ! i)"
  using assms
  by (cases e) (auto simp: ctl_defs nth_list_update nth_append split: option.splits prod.splits)

lemma completed_run:
  assumes "i < length (heap s)" "n_completed (heap s ! i)"
  shows "i < length (heap (run evs s)) \<and> n_completed (heap (run evs s) ! i)"
  using assms by (induction evs arbitrary: s) (simp_all add: completed_step)

lemma complete_marks:
  assumes "i < length (heap s)" "NetC_complete i s = (Inr (), s1)"
  shows "i < length (heap s1) \<and> n_completed (heap s1 ! i)"
proof -
  from assms(2) have w: "\<not> wrong_state i s"
    by (auto simp: NetC_complete_def split: if_splits)
  from assms w show ?thesis
    by (auto simp: NetC_complete_def call_handleInit_def new_NetC_def setEnableState_def Let_def
          nth_append split: if_splits option.splits)
qed

text \<open>
  C3. Once complete() has succeeded on a NetC object, then after any further events every
  method of that object (complete again, checkStop, updateServer, showLogin, cls, print,
  token) throws "NetC: Wrong state" and changes nothing; so complete() succeeds at most once
  on an object, and no later call is silently ignored.
\<close>

theorem C3_completed_object_is_terminal:
  assumes "i < length (heap s)" "NetC_complete i s = (Inr (), s1)"
  shows "let s2 = run evs s1 in
           NetC_complete i s2 = (Inl WrongState, s2) \<and>
           NetC_checkStop i s2 = (Inl WrongState, s2) \<and>
           NetC_updateServer i srv s2 = (Inl WrongState, s2) \<and>
           NetC_showLogin i site fdone fcancel s2 = (Inl WrongState, s2) \<and>
           NetC_cls i s2 = (Inl WrongState, s2) \<and>
           NetC_print i msg s2 = (Inl WrongState, s2) \<and>
           NetC_token i tkstr s2 = (Inl WrongState, s2)"
proof -
  from complete_marks [OF assms] have "n_completed (heap (run evs s1) ! i)"
    using completed_run by blast
  then have "wrong_state i (run evs s1)" by (simp add: wrong_state_def)
  then show ?thesis
    by (simp add: Let_def NetC_complete_def NetC_checkStop_def NetC_updateServer_def
          NetC_showLogin_def NetC_cls_def NetC_print_def NetC_token_def)
qed

theorem C3_completed_object_witness:
  "0 < length (heap (booted (Server 0) blank_page)) \<and>
   fst (NetC_complete 0 (booted (Server 0) blank_page)) = Inr () \<and>
   fst (NetC_print 0 [0x48]
     (run [Click_btnSend, Print 0 [0x48]] (snd (NetC_complete 0 (booted (Server 0) blank_page))))) = Inl WrongState"
proof -
  have l: "0 < length (heap (booted (Server 0) blank_page))"
    by (simp add: boot_defs ctl_defs)
  have f: "fst (NetC_complete 0 (booted (Server 0) blank_page)) = Inr ()"
    by (simp add: boot_defs ctl_defs)
  then have c: "NetC_complete 0 (booted (Server 0) blank_page) =
             (Inr (), snd (NetC_complete 0 (booted (Server 0) blank_page)))"
    by (simp add: prod_eq_iff)
  show ?thesis
    using l f C3_completed_object_is_terminal [OF l c, of "[Click_btnSend, Print 0 [0x48]]" "Server 0" "[]" "Callback 0" "Callback 0" "[0x48]" "[]"]
    by (simp add: Let_def)
qed

subsection \<open>The login dialog\<close>

lemma login_window_step:
  assumes "login_window i fd fc s" "e \<noteq> Click_btnLogin" "e \<noteq> Click_btnLoginCancel"
  shows "login_window i fd fc (step e s)"
  using assms
  by (cases e)
    (auto simp: login_window_def ctl_defs nth_list_update nth_append split: option.splits)

lemma login_window_run:
  assumes "login_window i fd fc s" "Click_btnLogin \<notin> set evs" "Click_btnLoginCancel \<notin> set evs"
  shows "login_window i fd fc (run evs s)"
  using assms
proof (induction evs arbitrary: s)
  case Nil
  then show ?case by simp
next
  case (Cons e es)
  from Cons.prems have "login_window i fd fc (step e s)"
    by (intro login_window_step) auto
  with Cons show ?case by simp
qed

lemma showLogin_opens:
  assumes "i < length (heap s)" "NetC_showLogin i site fd fc s = (Inr (), s1)"
  shows "login_window i fd fc s1"
  using assms
  by (auto simp: login_window_def NetC_showLogin_def doLogin_def Let_def split: if_splits)

lemma showLogin_in_window:
  assumes "login_window i fd fc s" "j < length (heap s)"
  shows "fst (NetC_showLogin j site' fd' fc' s) = Inl WrongState \<or>
         fst (NetC_showLogin j site' fd' fc' s) = Inl (Fault ''doLogin'' 50)"
  using assms by (simp add: login_window_def NetC_showLogin_def doLogin_def Let_def)

text \<open>
  C4. From a successful showLogin on an object until the user answers the dialog (the only
  way either callback fires is a click on btnLogin or btnLoginCancel), cls, print, token and
  complete on that object throw "NetC: Wrong state" and change nothing, send and stop clicks
  change nothing, and a showLogin on any object throws. The answer then fires exactly one
  callback: onDone with the two boxes' contents, or onCancel.
\<close>

theorem C4_login_blocks_display:
  assumes "i < length (heap s)"
    and "NetC_showLogin i site fdone fcancel s = (Inr (), s1)"
    and "Click_btnLogin \<notin> set evs" and "Click_btnLoginCancel \<notin> set evs"
  shows "let s2 = run evs s1 in
           NetC_cls i s2 = (Inl WrongState, s2) \<and>
           NetC_print i msg s2 = (Inl WrongState, s2) \<and>
           NetC_token i tkstr s2 = (Inl WrongState, s2) \<and>
           NetC_complete i s2 = (Inl WrongState, s2) \<and>
           handleSend s2 = (Inr (), s2) \<and>
           handleStop s2 = (Inr (), s2) \<and>
           NetC_showLogin i site' fdone' fcancel' s2 = (Inl WrongState, s2) \<and>
           (\<forall>j < length (heap s2).
              fst (NetC_showLogin j site' fdone' fcancel' s2) = Inl WrongState \<or>
              fst (NetC_showLogin j site' fdone' fcancel' s2) = Inl (Fault ''doLogin'' 50)) \<and>
           calls (snd (handleLoginResponse True s2)) =
             calls s2 @ [LoginDone fdone (username_value s2) (password_value s2)] \<and>
           calls (snd (handleLoginResponse False s2)) = calls s2 @ [LoginCancel fcancel]"
proof -
  have w: "login_window i fdone fcancel (run evs s1)"
    using assms by (intro login_window_run showLogin_opens)
  then have ws: "wrong_state i (run evs s1)" and l: "m_login (run evs s1)"
    by (simp_all add: login_window_def wrong_state_def)
  have "\<forall>j < length (heap (run evs s1)).
          fst (NetC_showLogin j site' fdone' fcancel' (run evs s1)) = Inl WrongState \<or>
          fst (NetC_showLogin j site' fdone' fcancel' (run evs s1)) = Inl (Fault ''doLogin'' 50)"
    using showLogin_in_window [OF w] by blast
  moreover have "calls (snd (handleLoginResponse True (run evs s1))) =
      calls (run evs s1) @ [LoginDone fdone (username_value (run evs s1)) (password_value (run evs s1))]"
    using w by (simp add: login_window_def handleLoginResponse_def call_login_done_def Let_def)
  moreover have "calls (snd (handleLoginResponse False (run evs s1))) =
      calls (run evs s1) @ [LoginCancel fcancel]"
    using w by (simp add: login_window_def handleLoginResponse_def call_login_cancel_def Let_def)
  ultimately show ?thesis
    using ws l
    by (simp add: Let_def NetC_cls_def NetC_print_def NetC_token_def NetC_complete_def
          NetC_showLogin_def handleSend_def handleStop_def)
qed

theorem C4_login_blocks_display_witness:
  "0 < length (heap (booted (Server 0) blank_page)) \<and>
   fst (NetC_showLogin 0 [0x41] (Callback 1) (Callback 2) (booted (Server 0) blank_page)) = Inr () \<and>
   Click_btnLogin \<notin> set [Click_btnStop, Edit_username [0x42], Complete 0] \<and>
   Click_btnLoginCancel \<notin> set [Click_btnStop, Edit_username [0x42], Complete 0] \<and>
   fst (NetC_complete 0 (run [Click_btnStop, Edit_username [0x42], Complete 0]
     (snd (NetC_showLogin 0 [0x41] (Callback 1) (Callback 2) (booted (Server 0) blank_page))))) =
     Inl WrongState \<and>
   calls (snd (handleLoginResponse True (run [Click_btnStop, Edit_username [0x42], Complete 0]
     (snd (NetC_showLogin 0 [0x41] (Callback 1) (Callback 2) (booted (Server 0) blank_page)))))) =
     [HandleInit (Server 0) 0, LoginDone (Callback 1) [0x42] []]"
proof -
  let ?s = "booted (Server 0) blank_page"
  let ?evs = "[Click_btnStop, Edit_username [0x42], Complete 0]"
  have l: "0 < length (heap ?s)"
    by (simp add: boot_defs ctl_defs)
  have f: "fst (NetC_showLogin 0 [0x41] (Callback 1) (Callback 2) ?s) = Inr ()"
    by (simp add: boot_defs ctl_defs)
  then have c: "NetC_showLogin 0 [0x41] (Callback 1) (Callback 2) ?s =
                  (Inr (), snd (NetC_showLogin 0 [0x41] (Callback 1) (Callback 2) ?s))"
    by (simp add: prod_eq_iff)
  have e1: "Click_btnLogin \<notin> set ?evs" and e2: "Click_btnLoginCancel \<notin> set ?evs"
    by simp_all
  have u: "username_value (run ?evs (snd (NetC_showLogin 0 [0x41] (Callback 1) (Callback 2) ?s))) = [0x42]"
   and p: "password_value (run ?evs (snd (NetC_showLogin 0 [0x41] (Callback 1) (Callback 2) ?s))) = []"
   and k: "calls (run ?evs (snd (NetC_showLogin 0 [0x41] (Callback 1) (Callback 2) ?s))) = [HandleInit (Server 0) 0]"
    by (simp_all add: boot_defs ctl_defs)
  show ?thesis
    using l f e1 e2 u p k C4_login_blocks_display [OF l c e1 e2, of "[]" "[]" "[]" "Callback 0" "Callback 0"]
    by (simp add: Let_def)
qed

subsection \<open>The shape of reachable states\<close>

lemma coherent_booted: "coherent (booted boot d)"
  by (simp add: coherent_def boot_defs ctl_defs)

lemma step_wrong_state:
  assumes "receiver e = Some i" "i < length (heap s)" "wrong_state i s"
  shows "step e s = s"
  using assms by (cases e) (simp_all add: step_def NetC_checkStop_def NetC_updateServer_def
      NetC_showLogin_def NetC_cls_def NetC_print_def NetC_token_def NetC_complete_def)

lemma step_no_object:
  assumes "receiver e = Some i" "\<not> i < length (heap s)"
  shows "step e s = s"
  using assms by (simp add: step_def)

lemma coherentD:
  assumes "coherent s" "m_processing s"
  obtains h ob where "heap s = h @ [ob]" "list_all n_completed h" "\<not> n_completed ob"
    "n_login ob = m_login s"
    "m_login s \<longrightarrow> (\<exists>fd fc. m_login_done s = Some (length h, fd) \<and>
                            m_login_cancel s = Some (length h, fc))"
  using assms unfolding coherent_def by auto

lemma coherent_live:
  assumes "coherent s" "i < length (heap s)" "\<not> wrong_state i s"
  shows "Suc i = length (heap s) \<and> \<not> m_login s"
proof -
  from assms(3) have p: "m_processing s" by (simp add: wrong_state_def)
  from assms(1) p obtain h ob where h: "heap s = h @ [ob]" "list_all n_completed h"
    "n_login ob = m_login s" by (rule coherentD)
  show ?thesis
  proof (cases "i < length h")
    case True
    with h assms(3) show ?thesis by (simp add: wrong_state_def nth_append list_all_length)
  next
    case False
    with assms(2) h have "i = length h" by simp
    with h assms(3) show ?thesis by (simp add: wrong_state_def)
  qed
qed

lemma coherent_step_click:
  assumes "coherent s" "receiver e = None"
  shows "coherent (step e s)"
proof (cases "m_processing s")
  case True
  from assms(1) True obtain h ob where h: "heap s = h @ [ob]" "list_all n_completed h"
    "\<not> n_completed ob" "n_login ob = m_login s"
    "m_login s \<longrightarrow> (\<exists>fd fc. m_login_done s = Some (length h, fd) \<and>
                            m_login_cancel s = Some (length h, fc))"
    by (rule coherentD)
  from assms(1) have sv: "m_server s \<noteq> None"
    "list_all (\<lambda>ob. n_replace ob \<longrightarrow> n_server ob \<noteq> None) (heap s)"
    by (simp_all add: coherent_def)
  show ?thesis
  proof (cases "m_login s")
    case False
    with assms True h sv show ?thesis
      by (cases e) (simp_all add: coherent_def ctl_defs)
  next
    case L: True
    from h(5) L obtain fd fc where cb: "m_login_done s = Some (length h, fd)"
       "m_login_cancel s = Some (length h, fc)" by blast
    with assms True h(1-4) sv L show ?thesis
      by (cases e) (simp_all add: coherent_def ctl_defs)
  qed
next
  case False
  with assms show ?thesis
    by (cases e) (auto simp: coherent_def ctl_defs)
qed

lemma coherent_step_method:
  assumes "coherent s" "receiver e = Some i"
  shows "coherent (step e s)"
proof (cases "i < length (heap s) \<and> \<not> wrong_state i s")
  case False
  then have "step e s = s"
    using step_wrong_state [OF assms(2)] step_no_object [OF assms(2)] by blast
  with assms(1) show ?thesis by simp
next
  case True
  then have i: "i < length (heap s)" and w: "\<not> wrong_state i s" by simp_all
  from w have p: "m_processing s" by (simp add: wrong_state_def)
  from coherent_live [OF assms(1) i w] have l: "Suc i = length (heap s)" "\<not> m_login s"
    by simp_all
  from assms(1) p obtain h ob where h: "heap s = h @ [ob]" "list_all n_completed h"
    "\<not> n_completed ob" "n_login ob = m_login s" by (rule coherentD)
  from l h have ih: "i = length h" by simp
  from assms(1) have sv: "m_server s \<noteq> None"
    "list_all (\<lambda>ob. n_replace ob \<longrightarrow> n_server ob \<noteq> None) (heap s)"
    by (simp_all add: coherent_def)
  from assms(2) p l(2) h ih sv show ?thesis
    by (cases e) (auto simp: coherent_def ctl_defs)
qed

lemma coherent_step: "coherent s \<Longrightarrow> coherent (step e s)"
  by (cases "receiver e") (simp_all add: coherent_step_click coherent_step_method)

lemma coherent_run: "coherent s \<Longrightarrow> coherent (run evs s)"
  by (induction evs arbitrary: s) (simp_all add: coherent_step)

lemma coherent_reachable: "coherent (run evs (booted boot d))"
  by (simp add: coherent_run coherent_booted)

lemma coherent_outstanding:
  assumes "coherent s"
  shows "outstanding s = (if m_processing s then 1 else 0)"
proof (cases "m_processing s")
  case True
  from assms True obtain h ob where h: "heap s = h @ [ob]" "list_all n_completed h"
    "\<not> n_completed ob" by (rule coherentD)
  from h(2) have "filter (\<lambda>ob. \<not> n_completed ob) h = []"
    by (simp add: filter_empty_conv list_all_iff)
  with h True show ?thesis by (simp add: outstanding_def)
next
  case False
  with assms have "list_all n_completed (heap s)" by (simp add: coherent_def)
  then have "filter (\<lambda>ob. \<not> n_completed ob) (heap s) = []"
    by (simp add: filter_empty_conv list_all_iff)
  with False show ?thesis by (simp add: outstanding_def)
qed

lemma in_flight_step:
  assumes "in_flight j s" "e \<noteq> Complete j"
  shows "in_flight j (step e s) \<and>
         filter handler_call (calls (step e s)) = filter handler_call (calls s) \<and>
         m_server (step e s) = m_server s \<and>
         ((\<forall>srv. e \<noteq> UpdateServer j srv) \<longrightarrow>
            n_replace (heap (step e s) ! j) = n_replace (heap s ! j) \<and>
            n_server (heap (step e s) ! j) = n_server (heap s ! j))"
proof -
  from assms(1) have c: "coherent s" and p: "m_processing s" and j: "Suc j = length (heap s)"
    by (simp_all add: in_flight_def)
  have c': "coherent (step e s)" using c by (rule coherent_step)
  have rest: "m_processing (step e s) \<and> length (heap (step e s)) = length (heap s) \<and>
         filter handler_call (calls (step e s)) = filter handler_call (calls s) \<and>
         m_server (step e s) = m_server s \<and>
         ((\<forall>srv. e \<noteq> UpdateServer j srv) \<longrightarrow>
            n_replace (heap (step e s) ! j) = n_replace (heap s ! j) \<and>
            n_server (heap (step e s) ! j) = n_server (heap s ! j))"
  proof (cases "receiver e")
    case None
    with p j show ?thesis
      by (cases e) (auto simp: ctl_defs split: option.splits)
  next
    case (Some i)
    show ?thesis
    proof (cases "i < length (heap s) \<and> \<not> wrong_state i s")
      case False
      then have "step e s = s"
        using step_wrong_state [OF Some] step_no_object [OF Some] by blast
      with p show ?thesis by simp
    next
      case True
      then have i: "i < length (heap s)" and w: "\<not> wrong_state i s" by simp_all
      from coherent_live [OF c i w] j have "i = j" by simp
      with Some True assms(2) p j show ?thesis
        by (cases e) (auto simp: ctl_defs)
    qed
  qed
  with c' j show ?thesis by (simp add: in_flight_def)
qed

lemma in_flight_run:
  assumes "in_flight j s" "Complete j \<notin> set evs"
  shows "in_flight j (run evs s) \<and>
         filter handler_call (calls (run evs s)) = filter handler_call (calls s) \<and>
         m_server (run evs s) = m_server s \<and>
         ((\<forall>srv. UpdateServer j srv \<notin> set evs) \<longrightarrow>
            n_replace (heap (run evs s) ! j) = n_replace (heap s ! j) \<and>
            n_server (heap (run evs s) ! j) = n_server (heap s ! j))"
  using assms
proof (induction evs arbitrary: s)
  case Nil
  then show ?case by simp
next
  case (Cons e es)
  from Cons.prems have e: "e \<noteq> Complete j" and es: "Complete j \<notin> set es" by auto
  note st = in_flight_step [OF Cons.prems(1) e]
  from st have f: "in_flight j (step e s)" by simp
  note ih = Cons.IH [OF f es]
  show ?case
  proof (intro conjI impI)
    show "in_flight j (run (e # es) s)" using ih by simp
    show "filter handler_call (calls (run (e # es) s)) = filter handler_call (calls s)"
      using ih st by simp
    show "m_server (run (e # es) s) = m_server s" using ih st by simp
  next
    assume a: "\<forall>srv. UpdateServer j srv \<notin> set (e # es)"
    then have "\<forall>srv. e \<noteq> UpdateServer j srv" "\<forall>srv. UpdateServer j srv \<notin> set es" by auto
    with ih st show "n_replace (heap (run (e # es) s) ! j) = n_replace (heap s ! j)"
      and "n_server (heap (run (e # es) s) ! j) = n_server (heap s ! j)" by simp_all
  qed
qed

lemma in_flight_send:
  assumes "in_flight j s"
  shows "handleSend s = (Inr (), s)"
  using assms by (simp add: in_flight_def handleSend_def)

lemma handleSend_noop:
  "m_processing s \<or> m_login s \<Longrightarrow> handleSend s = (Inr (), s)"
  by (auto simp: handleSend_def)

lemma handleSend_proceeds:
  assumes "\<not> m_processing s" "\<not> m_login s" "m_server s = Some srv"
  shows "handleSend s =
     (Inr (),
      s\<lparr> divOutput := divOutput s @
           [\<lparr> className = ''client'',
              childNodes = line_pieces ([0xbb, 0x20] @ txtInput_value s),
              clipboard = None \<rparr>],
         txtInput_disabled := True, btnSend_disabled := True, btnStop_disabled := False,
         m_processing := True, m_stop_request := False,
         heap := heap s @
           [\<lparr> n_completed = False, n_replace = False, n_server = None, n_login = False \<rparr>],
         calls := calls s @ [HandleMessage srv (length (heap s)) (txtInput_value s)] \<rparr>)"
  using assms by (simp add: ctl_defs)

lemma send_in_flight:
  assumes "coherent s" "\<not> m_processing s" "\<not> m_login s"
  shows "in_flight (length (heap s)) (snd (handleSend s))"
proof -
  from assms(1) obtain srv where srv: "m_server s = Some srv" by (auto simp: coherent_def)
  have "coherent (step Click_btnSend s)" using assms(1) by (rule coherent_step)
  then have "coherent (snd (handleSend s))" by (simp add: step_def)
  then show ?thesis
    unfolding in_flight_def handleSend_proceeds [OF assms(2,3) srv] by simp
qed

text \<open>
  C1. A send click changes nothing and calls no server code while processing or a login is
  active. Otherwise it appends the text of the input box as a client paragraph (behind the
  prompt), sets processing, clears the stop request, and calls handleMessage of the active
  server once, with a new NetC object. In every state reachable from page load the number
  of outstanding operations is one while processing and zero otherwise; and after a send
  that went ahead, until complete() is called on its object, every further send changes
  nothing and no other handleInit or handleMessage call is made.
\<close>

theorem C1_send_single_flight:
  "(m_processing s \<or> m_login s \<longrightarrow> handleSend s = (Inr (), s)) \<and>
   (\<not> m_processing s \<and> \<not> m_login s \<and> m_server s = Some srv \<longrightarrow>
      handleSend s =
        (Inr (),
         s\<lparr> divOutput := divOutput s @
              [\<lparr> className = ''client'',
                 childNodes = line_pieces ([0xbb, 0x20] @ txtInput_value s),
                 clipboard = None \<rparr>],
            txtInput_disabled := True, btnSend_disabled := True, btnStop_disabled := False,
            m_processing := True, m_stop_request := False,
            heap := heap s @
              [\<lparr> n_completed = False, n_replace = False, n_server = None, n_login = False \<rparr>],
            calls := calls s @ [HandleMessage srv (length (heap s)) (txtInput_value s)] \<rparr>)) \<and>
   (let r = run evs (booted boot d) in
      outstanding r = (if m_processing r then 1 else 0) \<and>
      (\<not> m_processing r \<and> \<not> m_login r \<and> Complete (length (heap r)) \<notin> set evs' \<longrightarrow>
         (let r' = run evs' (snd (handleSend r)) in
            handleSend r' = (Inr (), r') \<and>
            outstanding r' = 1 \<and>
            (\<exists>active. m_server r = Some active \<and>
               filter handler_call (calls r') =
                 filter handler_call (calls r) @
                   [HandleMessage active (length (heap r)) (txtInput_value r)]))))"
proof -
  let ?r = "run evs (booted boot d)"
  have c: "coherent ?r" by (rule coherent_reachable)
  have "\<not> m_processing ?r \<and> \<not> m_login ?r \<and> Complete (length (heap ?r)) \<notin> set evs' \<longrightarrow>
         (let r' = run evs' (snd (handleSend ?r)) in
            handleSend r' = (Inr (), r') \<and>
            outstanding r' = 1 \<and>
            (\<exists>active. m_server ?r = Some active \<and>
               filter handler_call (calls r') =
                 filter handler_call (calls ?r) @
                   [HandleMessage active (length (heap ?r)) (txtInput_value ?r)]))"
  proof (intro impI, elim conjE)
    assume a: "\<not> m_processing ?r" "\<not> m_login ?r" "Complete (length (heap ?r)) \<notin> set evs'"
    from c obtain active where srv: "m_server ?r = Some active" by (auto simp: coherent_def)
    have f: "in_flight (length (heap ?r)) (snd (handleSend ?r))"
      using c a(1,2) by (rule send_in_flight)
    note w = in_flight_run [OF f a(3)]
    from w have f': "in_flight (length (heap ?r)) (run evs' (snd (handleSend ?r)))" by simp
    then have "coherent (run evs' (snd (handleSend ?r)))"
      and "m_processing (run evs' (snd (handleSend ?r)))"
      by (simp_all add: in_flight_def)
    then have o: "outstanding (run evs' (snd (handleSend ?r))) = 1"
      by (simp add: coherent_outstanding)
    have k: "filter handler_call (calls (snd (handleSend ?r))) =
             filter handler_call (calls ?r) @
               [HandleMessage active (length (heap ?r)) (txtInput_value ?r)]"
      unfolding handleSend_proceeds [OF a(1,2) srv] by simp
    show "let r' = run evs' (snd (handleSend ?r)) in
            handleSend r' = (Inr (), r') \<and>
            outstanding r' = 1 \<and>
            (\<exists>active. m_server ?r = Some active \<and>
               filter handler_call (calls r') =
                 filter handler_call (calls ?r) @
                   [HandleMessage active (length (heap ?r)) (txtInput_value ?r)])"
      using in_flight_send [OF f'] o srv k w by (simp add: Let_def)
  qed
  then show ?thesis
    using handleSend_noop [of s] handleSend_proceeds [of s srv] coherent_outstanding [OF c]
    by (simp add: Let_def)
qed

theorem C1_send_single_flight_witness:
  "\<not> m_processing (run [Complete 0, Edit_txtInput [0x68]] (booted (Server 0) blank_page)) \<and>
   \<not> m_login (run [Complete 0, Edit_txtInput [0x68]] (booted (Server 0) blank_page)) \<and>
   m_server (run [Complete 0, Edit_txtInput [0x68]] (booted (Server 0) blank_page)) =
     Some (Server 0) \<and>
   Complete (length (heap (run [Complete 0, Edit_txtInput [0x68]] (booted (Server 0) blank_page))))
     \<notin> set [Click_btnStop, Click_btnSend] \<and>
   calls (snd (handleSend (run [Complete 0, Edit_txtInput [0x68]] (booted (Server 0) blank_page)))) =
     [HandleInit (Server 0) 0, HandleMessage (Server 0) 1 [0x68]] \<and>
   fst (handleSend (run [Click_btnStop, Click_btnSend]
     (snd (handleSend (run [Complete 0, Edit_txtInput [0x68]] (booted (Server 0) blank_page)))))) =
     Inr () \<and>
   snd (handleSend (run [Click_btnStop, Click_btnSend]
     (snd (handleSend (run [Complete 0, Edit_txtInput [0x68]] (booted (Server 0) blank_page)))))) =
     run [Click_btnStop, Click_btnSend]
       (snd (handleSend (run [Complete 0, Edit_txtInput [0x68]] (booted (Server 0) blank_page))))"
proof -
  let ?r = "run [Complete 0, Edit_txtInput [0x68]] (booted (Server 0) blank_page)"
  have p: "\<not> m_processing ?r" and l: "\<not> m_login ?r" and v: "m_server ?r = Some (Server 0)"
    by (simp_all add: boot_defs ctl_defs)
  have kk: "calls (snd (handleSend ?r)) = [HandleInit (Server 0) 0, HandleMessage (Server 0) 1 [0x68]]"
    by (simp add: boot_defs ctl_defs)
  have e: "Complete (length (heap ?r)) \<notin> set [Click_btnStop, Click_btnSend]"
    by simp
  have "handleSend (run [Click_btnStop, Click_btnSend] (snd (handleSend ?r))) =
          (Inr (), run [Click_btnStop, Click_btnSend] (snd (handleSend ?r)))"
    using p l e
      C1_send_single_flight [of ?r "Server 0" "[Complete 0, Edit_txtInput [0x68]]" "Server 0"
        blank_page "[Click_btnStop, Click_btnSend]"]
    unfolding Let_def by blast
  then have "fst (handleSend (run [Click_btnStop, Click_btnSend] (snd (handleSend ?r)))) = Inr ()"
    and "snd (handleSend (run [Click_btnStop, Click_btnSend] (snd (handleSend ?r)))) =
         run [Click_btnStop, Click_btnSend] (snd (handleSend ?r))"
    by simp_all
  with p l v e kk show ?thesis by blast
qed

subsection \<open>The stop request\<close>

lemma stop_step:
  assumes "\<not> m_processing s \<longrightarrow> \<not> m_stop_request s"
  shows "\<not> m_processing (step e s) \<longrightarrow> \<not> m_stop_request (step e s)"
  using assms by (cases e) (auto simp: ctl_defs split: option.splits)

text \<open>
  C5. The stop request is clear after the module has loaded and after handleLoad. Every
  event keeps "not processing implies no stop request", from any state; so it holds in every
  state reachable from page load. handleStop sets the request only while processing, with no
  login active; handleSend and complete() leave it clear whenever they change processing.
\<close>

theorem C5_stop_only_while_processing:
  "\<not> m_stop_request (initial d) \<and>
   \<not> m_stop_request (booted boot d) \<and>
   ((\<not> m_processing s \<longrightarrow> \<not> m_stop_request s) \<longrightarrow>
      (\<not> m_processing (step e s) \<longrightarrow> \<not> m_stop_request (step e s))) \<and>
   (\<not> m_processing (run evs (booted boot d)) \<longrightarrow> \<not> m_stop_request (run evs (booted boot d))) \<and>
   (m_stop_request (snd (handleStop s)) \<and> \<not> m_stop_request s \<longrightarrow>
      m_processing s \<and> \<not> m_login s) \<and>
   (m_processing (snd (handleSend s)) \<noteq> m_processing s \<longrightarrow>
      \<not> m_stop_request (snd (handleSend s))) \<and>
   (m_processing (snd (NetC_complete i s)) \<noteq> m_processing s \<longrightarrow>
      \<not> m_stop_request (snd (NetC_complete i s))) \<and>
   (fst (NetC_complete i s) = Inr () \<longrightarrow> \<not> m_stop_request (snd (NetC_complete i s)))"
proof -
  have "coherent (run evs (booted boot d))" by (rule coherent_reachable)
  then have "\<not> m_processing (run evs (booted boot d)) \<longrightarrow>
             \<not> m_stop_request (run evs (booted boot d))"
    by (simp add: coherent_def split: if_splits)
  moreover have "\<not> m_stop_request (initial d)" "\<not> m_stop_request (booted boot d)"
    by (simp_all add: boot_defs ctl_defs)
  moreover have "m_stop_request (snd (handleStop s)) \<and> \<not> m_stop_request s \<longrightarrow>
      m_processing s \<and> \<not> m_login s"
    by (simp add: ctl_defs)
  moreover have "m_processing (snd (handleSend s)) \<noteq> m_processing s \<longrightarrow>
      \<not> m_stop_request (snd (handleSend s))"
    by (simp add: ctl_defs split: option.splits)
  moreover have "m_processing (snd (NetC_complete i s)) \<noteq> m_processing s \<longrightarrow>
      \<not> m_stop_request (snd (NetC_complete i s))"
    by (simp add: ctl_defs split: option.splits)
  moreover have "fst (NetC_complete i s) = Inr () \<longrightarrow> \<not> m_stop_request (snd (NetC_complete i s))"
    by (simp add: ctl_defs split: option.splits)
  ultimately show ?thesis using stop_step [of s e] by blast
qed

theorem C5_stop_only_while_processing_witness:
  "m_processing (step Click_btnStop (booted (Server 0) blank_page)) \<and>
   m_stop_request (step Click_btnStop (booted (Server 0) blank_page)) \<and>
   \<not> m_processing (step (Complete 0) (step Click_btnStop (booted (Server 0) blank_page))) \<and>
   \<not> m_stop_request (step (Complete 0) (step Click_btnStop (booted (Server 0) blank_page))) \<and>
   \<not> m_stop_request (run [Click_btnStop, Complete 0] (booted (Server 0) blank_page))"
proof -
  let ?s = "step Click_btnStop (booted (Server 0) blank_page)"
  have a: "m_stop_request ?s" and b: "m_processing ?s"
    and c: "\<not> m_processing (step (Complete 0) ?s)"
    by (simp_all add: boot_defs ctl_defs)
  show ?thesis
    using a b c
      C5_stop_only_while_processing [of blank_page "Server 0" ?s "Complete 0"
        "[Click_btnStop, Complete 0]" 0]
    by simp
qed

subsection \<open>Replacing the server\<close>

lemma live_in_flight:
  assumes "coherent s" "i < length (heap s)" "\<not> wrong_state i s"
  shows "in_flight i s"
  using coherent_live [OF assms] assms by (simp add: in_flight_def wrong_state_def)

lemma in_flight_object:
  assumes "in_flight j s"
  shows "j < length (heap s) \<and> \<not> n_completed (heap s ! j) \<and> n_login (heap s ! j) = m_login s"
proof -
  from assms have c: "coherent s" and p: "m_processing s" and j: "Suc j = length (heap s)"
    by (simp_all add: in_flight_def)
  from c p obtain h ob where h: "heap s = h @ [ob]" "\<not> n_completed ob" "n_login ob = m_login s"
    by (rule coherentD)
  with j show ?thesis by simp
qed

lemma updateServer_sets:
  assumes "i < length (heap s)" "\<not> wrong_state i s"
  shows "n_replace (heap (step (UpdateServer i srv) s) ! i) \<and>
         n_server (heap (step (UpdateServer i srv) s) ! i) = Some srv"
  using assms by (simp add: ctl_defs)

lemma complete_replaces:
  assumes "in_flight i s" "\<not> m_login s" "n_replace (heap s ! i)" "n_server (heap s ! i) = Some srv"
  shows "NetC_complete i s =
     (Inr (),
      s\<lparr> txtInput_disabled := True, btnSend_disabled := True, btnStop_disabled := False,
         txtInput_value := [],
         m_processing := True, m_stop_request := False, m_server := Some srv,
         heap := (heap s)[i := (heap s ! i)\<lparr> n_completed := True \<rparr>] @
           [\<lparr> n_completed = False, n_replace = False, n_server = None, n_login = False \<rparr>],
         calls := calls s @ [HandleInit srv (length (heap s))] \<rparr>)"
proof -
  from in_flight_object [OF assms(1)] assms(2) have "\<not> wrong_state i s" "i < length (heap s)"
    using assms(1) by (simp_all add: wrong_state_def in_flight_def)
  with assms(3,4) show ?thesis by (simp add: ctl_defs)
qed

text \<open>
  C2. In a state reachable from page load, let an operation be running on object \<open>i\<close>, and
  let the server call updateServer(B) on it, whatever it called before. After any events
  that hold no further updateServer on \<open>i\<close>, complete() on \<open>i\<close> (outside a login dialog)
  succeeds: it leaves processing set, makes B the active server, and calls B.handleInit with
  a new NetC object. That is the only handleInit or handleMessage call made since
  updateServer, and until complete() is called on the new object every send click changes
  nothing and no further handleInit or handleMessage call is made.
\<close>

theorem C2_updateServer_then_complete:
  assumes "r = run evs (booted boot d)"
    and "i < length (heap r)" and "\<not> wrong_state i r"
    and "r2 = run evs1 (step (UpdateServer i B) r)"
    and "Complete i \<notin> set evs1" and "\<forall>srv. UpdateServer i srv \<notin> set evs1"
    and "\<not> m_login r2"
    and "Complete (length (heap r2)) \<notin> set evs2"
  shows "fst (NetC_complete i r2) = Inr () \<and>
         (let r3 = snd (NetC_complete i r2) in
            m_processing r3 \<and> \<not> m_stop_request r3 \<and> m_server r3 = Some B \<and>
            n_completed (heap r3 ! i) \<and>
            heap r3 = (heap r2)[i := (heap r2 ! i)\<lparr> n_completed := True \<rparr>] @
              [\<lparr> n_completed = False, n_replace = False, n_server = None, n_login = False \<rparr>] \<and>
            calls r3 = calls r2 @ [HandleInit B (length (heap r2))] \<and>
            filter handler_call (calls r3) =
              filter handler_call (calls r) @ [HandleInit B (length (heap r2))] \<and>
            handleSend r3 = (Inr (), r3) \<and>
            (let r4 = run evs2 r3 in
               handleSend r4 = (Inr (), r4) \<and> m_processing r4 \<and> m_server r4 = Some B \<and>
               filter handler_call (calls r4) = filter handler_call (calls r3)))"
proof -
  have c: "coherent r" unfolding assms(1) by (rule coherent_reachable)
  have f: "in_flight i r" using c assms(2,3) by (rule live_in_flight)
  have f1: "in_flight i (step (UpdateServer i B) r)"
    and k1: "filter handler_call (calls (step (UpdateServer i B) r)) = filter handler_call (calls r)"
    using in_flight_step [OF f, of "UpdateServer i B"] by simp_all
  note u = updateServer_sets [OF assms(2,3), of B]
  note w = in_flight_run [OF f1 assms(5)]
  from w have f2: "in_flight i r2" unfolding assms(4) by simp
  from w k1 have k2: "filter handler_call (calls r2) = filter handler_call (calls r)"
    unfolding assms(4) by simp
  from w u assms(6) have rs: "n_replace (heap r2 ! i)" "n_server (heap r2 ! i) = Some B"
    unfolding assms(4) by simp_all
  note cr = complete_replaces [OF f2 assms(7) rs]
  let ?r3 = "snd (NetC_complete i r2)"
  from f2 have i2: "Suc i = length (heap r2)" by (simp add: in_flight_def)
  have "coherent (step (Complete i) r2)" using f2 by (simp add: in_flight_def coherent_step)
  then have c3: "coherent ?r3" using i2 by (simp add: step_def)
  have f3: "in_flight (length (heap r2)) ?r3"
    using c3 unfolding in_flight_def cr by simp
  note w3 = in_flight_run [OF f3 assms(8)]
  from w3 have f4: "in_flight (length (heap r2)) (run evs2 ?r3)" by simp
  have s3: "handleSend ?r3 = (Inr (), ?r3)" using f3 by (rule in_flight_send)
  have s4: "handleSend (run evs2 ?r3) = (Inr (), run evs2 ?r3)" using f4 by (rule in_flight_send)
  have p4: "m_processing (run evs2 ?r3)" using f4 by (simp add: in_flight_def)
  have m3: "m_server ?r3 = Some B" unfolding cr by simp
  have a: "fst (NetC_complete i r2) = Inr ()" unfolding cr by simp
  have b: "m_processing ?r3 \<and> \<not> m_stop_request ?r3 \<and> n_completed (heap ?r3 ! i) \<and>
        heap ?r3 = (heap r2)[i := (heap r2 ! i)\<lparr> n_completed := True \<rparr>] @
              [\<lparr> n_completed = False, n_replace = False, n_server = None, n_login = False \<rparr>] \<and>
        calls ?r3 = calls r2 @ [HandleInit B (length (heap r2))]"
    unfolding cr using i2 by (simp add: nth_append)
  have k3: "filter handler_call (calls ?r3) =
              filter handler_call (calls r) @ [HandleInit B (length (heap r2))]"
    using b k2 by simp
  have m4: "m_server (run evs2 ?r3) = Some B" using w3 m3 by simp
  have k4: "filter handler_call (calls (run evs2 ?r3)) = filter handler_call (calls ?r3)"
    using w3 by simp
  show ?thesis
    unfolding Let_def using a b k3 m3 s3 s4 p4 m4 k4 by blast
qed

theorem C2_updateServer_then_complete_witness:
  "0 < length (heap (run [UpdateServer 0 (Server 5)] (booted (Server 0) blank_page))) \<and>
   \<not> wrong_state 0 (run [UpdateServer 0 (Server 5)] (booted (Server 0) blank_page)) \<and>
   Complete 0 \<notin> set [Print 0 [0x68]] \<and>
   (\<forall>srv. UpdateServer 0 srv \<notin> set [Print 0 [0x68]]) \<and>
   \<not> m_login (run [Print 0 [0x68]] (step (UpdateServer 0 (Server 7))
      (run [UpdateServer 0 (Server 5)] (booted (Server 0) blank_page)))) \<and>
   Complete (length (heap (run [Print 0 [0x68]] (step (UpdateServer 0 (Server 7))
      (run [UpdateServer 0 (Server 5)] (booted (Server 0) blank_page))))))
     \<notin> set [Click_btnSend, Click_btnStop] \<and>
   m_server (snd (NetC_complete 0 (run [Print 0 [0x68]] (step (UpdateServer 0 (Server 7))
      (run [UpdateServer 0 (Server 5)] (booted (Server 0) blank_page)))))) = Some (Server 7) \<and>
   filter handler_call (calls (snd (NetC_complete 0 (run [Print 0 [0x68]]
      (step (UpdateServer 0 (Server 7))
        (run [UpdateServer 0 (Server 5)] (booted (Server 0) blank_page))))))) =
     [HandleInit (Server 0) 0, HandleInit (Server 7) 1]"
proof -
  let ?r = "run [UpdateServer 0 (Server 5)] (booted (Server 0) blank_page)"
  let ?r2 = "run [Print 0 [0x68]] (step (UpdateServer 0 (Server 7)) ?r)"
  have h1: "0 < length (heap ?r)" and h2: "\<not> wrong_state 0 ?r"
    and h5: "\<not> m_login ?r2" and l2: "length (heap ?r2) = 1"
    and k: "filter handler_call (calls ?r) = [HandleInit (Server 0) 0]"
    by (simp_all add: boot_defs ctl_defs)
  have h3: "Complete 0 \<notin> set [Print 0 [0x68]]"
    and h4: "\<forall>srv. UpdateServer 0 srv \<notin> set [Print 0 [0x68]]"
    by simp_all
  have h6: "Complete (length (heap ?r2)) \<notin> set [Click_btnSend, Click_btnStop]"
    by simp
  note T = C2_updateServer_then_complete [OF refl h1 h2 refl h3 h4 h5 h6, unfolded Let_def]
  from T have m: "m_server (snd (NetC_complete 0 ?r2)) = Some (Server 7)" by blast
  from T have "filter handler_call (calls (snd (NetC_complete 0 ?r2))) =
      filter handler_call (calls ?r) @ [HandleInit (Server 7) (length (heap ?r2))]" by blast
  then have c: "filter handler_call (calls (snd (NetC_complete 0 ?r2))) =
      [HandleInit (Server 0) 0, HandleInit (Server 7) 1]"
    unfolding k l2 by simp
  from h1 h2 h3 h4 h5 h6 m c show ?thesis by blast
qed

subsection \<open>Answering the login dialog\<close>

lemma login_in_flight_step:
  assumes "in_flight i s" "login_window i fd fc s"
    "e \<noteq> Click_btnLogin" "e \<noteq> Click_btnLoginCancel"
  shows "in_flight i (step e s) \<and> login_window i fd fc (step e s)"
proof (cases "e = Complete i")
  case True
  from assms(2) have "i < length (heap s)" "wrong_state i s"
    by (simp_all add: login_window_def wrong_state_def)
  with True have "step e s = s" by (intro step_wrong_state [where i = i]) simp_all
  with assms show ?thesis by simp
next
  case False
  with assms show ?thesis
    using in_flight_step [OF assms(1) False] login_window_step [OF assms(2,3,4)] by simp
qed

lemma login_in_flight_run:
  assumes "in_flight i s" "login_window i fd fc s"
    "Click_btnLogin \<notin> set evs" "Click_btnLoginCancel \<notin> set evs"
  shows "in_flight i (run evs s) \<and> login_window i fd fc (run evs s)"
  using assms
proof (induction evs arbitrary: s)
  case Nil
  then show ?case by simp
next
  case (Cons e es)
  from Cons.prems have "in_flight i (step e s) \<and> login_window i fd fc (step e s)"
    by (intro login_in_flight_step) auto
  with Cons show ?case by simp
qed

lemma login_response_releases:
  assumes "in_flight i s" "login_window i fd fc s"
  shows "\<not> m_login (snd (handleLoginResponse rtype s)) \<and>
         \<not> wrong_state i (snd (handleLoginResponse rtype s)) \<and>
         fst (handleLoginResponse rtype s) = Inr () \<and>
         calls (snd (handleLoginResponse rtype s)) =
           calls s @ [if rtype then LoginDone fd (username_value s) (password_value s)
                      else LoginCancel fc]"
proof -
  from in_flight_object [OF assms(1)] have "\<not> n_completed (heap s ! i)" by simp
  moreover from assms(1) have "m_processing s" by (simp add: in_flight_def)
  ultimately show ?thesis
    using assms(2)
    by (simp add: login_window_def handleLoginResponse_def call_login_done_def
          call_login_cancel_def wrong_state_def Let_def)
qed

text \<open>
  C9. In a state reachable from page load, let showLogin succeed on object \<open>i\<close> and let the
  user answer the dialog after any other events. In the state in which the server's
  callback (onDone for the login button, onCancel for the cancel button) starts running,
  the login flag of the module and the login flag of the object are both clear, so
  checkStop, cls, print, token and complete on that object succeed there.
\<close>

theorem C9_login_callbacks_may_use_display:
  assumes "r = run evs (booted boot d)"
    and "i < length (heap r)"
    and "NetC_showLogin i site fdone fcancel r = (Inr (), r1)"
    and "Click_btnLogin \<notin> set evs1" and "Click_btnLoginCancel \<notin> set evs1"
    and "r2 = run evs1 r1"
    and "r3 = snd (handleLoginResponse rtype r2)"
  shows "m_login r2 \<and> n_login (heap r2 ! i) \<and>
         \<not> m_login r3 \<and> \<not> n_login (heap r3 ! i) \<and>
         calls r3 = calls r2 @ [if rtype then LoginDone fdone (username_value r2) (password_value r2)
                                else LoginCancel fcancel] \<and>
         NetC_checkStop i r3 = (Inr (m_stop_request r3), r3) \<and>
         NetC_cls i r3 = (Inr (), clearConsole r3) \<and>
         NetC_print i msg r3 = appendMessage msg True r3 \<and>
         fst (NetC_print i msg r3) = Inr () \<and>
         NetC_token i tkstr r3 = (Inr (), appendCopyToken tkstr r3) \<and>
         fst (NetC_complete i r3) = Inr ()"
proof -
  have c: "coherent r" unfolding assms(1) by (rule coherent_reachable)
  from assms(3) have w: "\<not> wrong_state i r"
    by (auto simp: NetC_showLogin_def split: if_splits)
  from w assms(2,3) have st: "step (ShowLogin i site fdone fcancel) r = r1"
    by (simp add: step_def)
  have f: "in_flight i r" using c assms(2) w by (rule live_in_flight)
  have f1: "in_flight i r1" using in_flight_step [OF f, of "ShowLogin i site fdone fcancel"] st
    by simp
  have l1: "login_window i fdone fcancel r1" using assms(2,3) by (rule showLogin_opens)
  from login_in_flight_run [OF f1 l1 assms(4,5)]
  have f2: "in_flight i r2" and l2: "login_window i fdone fcancel r2"
    unfolding assms(6) by simp_all
  note rel = login_response_releases [OF f2 l2, of rtype, folded assms(7)]
  from rel have nw: "\<not> wrong_state i r3" by simp
  then have nl: "\<not> n_login (heap r3 ! i)" by (simp add: wrong_state_def)
  have "coherent (step (if rtype then Click_btnLogin else Click_btnLoginCancel) r2)"
    using f2 by (simp add: in_flight_def coherent_step)
  then have c3: "coherent r3" unfolding assms(7) by (simp add: step_def split: if_splits)
  from l2 have i2: "i < length (heap r2)" by (simp add: login_window_def)
  have "length (heap r3) = length (heap r2)"
    using l2 unfolding assms(7)
    by (simp add: login_window_def handleLoginResponse_def call_login_done_def
          call_login_cancel_def Let_def)
  with i2 have i3: "i < length (heap r3)" by simp
  from c3 have "list_all (\<lambda>ob. n_replace ob \<longrightarrow> n_server ob \<noteq> None) (heap r3)"
    by (simp add: coherent_def)
  with i3 have sv: "n_replace (heap r3 ! i) \<longrightarrow> n_server (heap r3 ! i) \<noteq> None"
    by (simp add: list_all_length)
  have cm: "fst (NetC_complete i r3) = Inr ()"
    using nw sv i3 by (auto simp: NetC_complete_def call_handleInit_def new_NetC_def
        setEnableState_def Let_def)
  have pr: "fst (NetC_print i msg r3) = Inr ()"
    using nw by (simp add: NetC_print_def appendMessage_eq)
  from l2 have a: "m_login r2" "n_login (heap r2 ! i)" by (simp_all add: login_window_def)
  from a rel nl cm pr nw show ?thesis
    by (simp add: NetC_checkStop_def NetC_cls_def NetC_print_def NetC_token_def)
qed

theorem C9_login_callbacks_may_use_display_witness:
  "0 < length (heap (run [] (booted (Server 0) blank_page))) \<and>
   fst (NetC_showLogin 0 [0x41] (Callback 1) (Callback 2)
          (run [] (booted (Server 0) blank_page))) = Inr () \<and>
   Click_btnLogin \<notin> set [Edit_username [0x75], Print 0 [0x78]] \<and>
   Click_btnLoginCancel \<notin> set [Edit_username [0x75], Print 0 [0x78]] \<and>
   fst (NetC_complete 0 (snd (handleLoginResponse True
     (run [Edit_username [0x75], Print 0 [0x78]]
        (snd (NetC_showLogin 0 [0x41] (Callback 1) (Callback 2)
           (run [] (booted (Server 0) blank_page)))))))) = Inr () \<and>
   calls (snd (handleLoginResponse True
     (run [Edit_username [0x75], Print 0 [0x78]]
        (snd (NetC_showLogin 0 [0x41] (Callback 1) (Callback 2)
           (run [] (booted (Server 0) blank_page))))))) =
     [HandleInit (Server 0) 0, LoginDone (Callback 1) [0x75] []]"
proof -
  let ?r = "run [] (booted (Server 0) blank_page)"
  let ?r1 = "snd (NetC_showLogin 0 [0x41] (Callback 1) (Callback 2) ?r)"
  let ?evs1 = "[Edit_username [0x75], Print 0 [0x78]]"
  have h1: "0 < length (heap ?r)"
    and f: "fst (NetC_showLogin 0 [0x41] (Callback 1) (Callback 2) ?r) = Inr ()"
    and k: "calls (run ?evs1 ?r1) = [HandleInit (Server 0) 0]"
    and u: "username_value (run ?evs1 ?r1) = [0x75]"
    and p: "password_value (run ?evs1 ?r1) = []"
    by (simp_all add: boot_defs ctl_defs)
  from f have h2: "NetC_showLogin 0 [0x41] (Callback 1) (Callback 2) ?r = (Inr (), ?r1)"
    by (simp add: prod_eq_iff)
  have h3: "Click_btnLogin \<notin> set ?evs1" and h4: "Click_btnLoginCancel \<notin> set ?evs1"
    by simp_all
  note T = C9_login_callbacks_may_use_display [OF refl h1 h2 h3 h4 refl refl, of True]
  from T have a: "fst (NetC_complete 0 (snd (handleLoginResponse True (run ?evs1 ?r1)))) = Inr ()"
    by blast
  from T have "calls (snd (handleLoginResponse True (run ?evs1 ?r1))) =
      calls (run ?evs1 ?r1) @
        [if True then LoginDone (Callback 1) (username_value (run ?evs1 ?r1))
                        (password_value (run ?evs1 ?r1))
         else LoginCancel (Callback 2)]"
    by blast
  then have b: "calls (snd (handleLoginResponse True (run ?evs1 ?r1))) =
      [HandleInit (Server 0) 0, LoginDone (Callback 1) [0x75] []]"
    unfolding k u p by simp
  from h1 f h3 h4 a b show ?thesis by blast
qed

subsection \<open>Start-up\<close>

lemma booted_in_flight: "in_flight 0 (booted boot d)"
  using coherent_booted [of boot d] by (simp add: in_flight_def) (simp add: boot_defs ctl_defs)

lemma handleStop_eq:
  "handleStop s =
     (if m_login s \<or> \<not> m_processing s \<or> m_stop_request s then (Inr (), s)
      else
        (Inr (),
         s\<lparr> m_stop_request := True,
            txtInput_disabled := True, btnSend_disabled := True, btnStop_disabled := True,
            divOutput := divOutput s @
              [\<lparr> className = ''client'',
                 childNodes =
                   line_pieces ([0xbb, 0x20] @ js ''Client requested a STOP... '' @ [0xab]),
                 clipboard = None \<rparr>] \<rparr>))"
  by (simp add: handleStop_def setEnableState_def appendMessage_eq Let_def)

text \<open>
  C10, as the code has it. The module starts with m_processing set, and handleLoad calls
  handleInit of the boot server with NetC object 0. Until complete() is called on that
  object, processing stays set, every send click changes nothing, and that handleInit is the
  only handleInit or handleMessage call made. A stop click in that time is not ignored: unless
  a login dialog is showing or a stop was already requested, it sets the stop request,
  disables the stop button and appends the client's stop line.
\<close>

theorem C10_boot_blocks_send:
  assumes "Complete 0 \<notin> set evs"
  shows "m_processing (initial d) \<and> heap (initial d) = [] \<and> calls (initial d) = [] \<and>
         calls (booted boot d) = [HandleInit boot 0] \<and>
         (let r = run evs (booted boot d) in
            m_processing r \<and>
            handleSend r = (Inr (), r) \<and>
            filter handler_call (calls r) = [HandleInit boot 0] \<and>
            handleStop r =
              (if m_login r \<or> m_stop_request r then (Inr (), r)
               else
                 (Inr (),
                  r\<lparr> m_stop_request := True,
                     txtInput_disabled := True, btnSend_disabled := True,
                     btnStop_disabled := True,
                     divOutput := divOutput r @
                       [\<lparr> className = ''client'',
                          childNodes =
                            line_pieces
                              ([0xbb, 0x20] @ js ''Client requested a STOP... '' @ [0xab]),
                          clipboard = None \<rparr>] \<rparr>)))"
proof -
  note w = in_flight_run [OF booted_in_flight assms, of boot d]
  from w have f: "in_flight 0 (run evs (booted boot d))" by simp
  then have p: "m_processing (run evs (booted boot d))" by (simp add: in_flight_def)
  have k0: "calls (booted boot d) = [HandleInit boot 0]" by (simp add: boot_defs ctl_defs)
  with w have k: "filter handler_call (calls (run evs (booted boot d))) = [HandleInit boot 0]"
    by simp
  have i: "m_processing (initial d) \<and> heap (initial d) = [] \<and> calls (initial d) = []"
    by (simp add: initial_def)
  show ?thesis
    unfolding Let_def using i k0 p k in_flight_send [OF f] by (simp add: handleStop_eq)
qed

theorem C10_boot_blocks_send_witness:
  "Complete 0 \<notin> set [Click_btnSend, Edit_txtInput [0x68], Click_btnSend] \<and>
   handleSend (run [Click_btnSend, Edit_txtInput [0x68], Click_btnSend]
                 (booted (Server 0) blank_page)) =
     (Inr (), run [Click_btnSend, Edit_txtInput [0x68], Click_btnSend]
                (booted (Server 0) blank_page)) \<and>
   filter handler_call (calls (run [Click_btnSend, Edit_txtInput [0x68], Click_btnSend]
                 (booted (Server 0) blank_page))) = [HandleInit (Server 0) 0]"
proof -
  have h: "Complete 0 \<notin> set [Click_btnSend, Edit_txtInput [0x68], Click_btnSend]"
    by simp
  from h C10_boot_blocks_send [OF h, of blank_page "Server 0", unfolded Let_def]
  show ?thesis by blast
qed

text \<open>
  C10, as stated, fails: right after handleLoad, before the boot server's handleInit has
  completed, a stop click sets the stop request.
\<close>

theorem C10_stop_during_boot_counterexample:
  "\<not> n_completed (heap (booted (Server 0) blank_page) ! 0) \<and>
   \<not> m_stop_request (booted (Server 0) blank_page) \<and>
   m_stop_request (snd (handleStop (booted (Server 0) blank_page))) \<and>
   handleStop (booted (Server 0) blank_page) \<noteq> (Inr (), booted (Server 0) blank_page)"
  by (simp add: handleStop_eq) (simp add: boot_defs ctl_defs)

section \<open>Properties of the remote server\<close>

lemma find_update_code:
  assumes "find (\<lambda>r. ssncode r = c) tbl = Some row"
  shows "find (\<lambda>r. ssncode r = c) (ssn_update c now key tbl) =
           Some (row\<lparr> ssntime := now, ssnkey := key \<rparr>)"
  using assms by (induction tbl) (auto simp: ssn_update_def)

lemma find_code_exists:
  assumes "c \<in> set (map ssncode tbl)"
  shows "\<exists>row. find (\<lambda>r. ssncode r = c) tbl = Some row"
  using assms by (induction tbl) auto

text \<open>
  C6. Let a transaction of a session that is in the table end (not as a logout) with its
  context as it then stands, and let the client send back, with the session code, exactly
  the context and tag of the response. If the session has not expired, the next
  transaction is accepted and the context it observes is, byte for byte, the context the
  first one returned and ended with.
\<close>

theorem C6_context_round_trip:
  assumes "t_code t \<in> set (map ssncode tbl)"
    and "t_procType t \<noteq> logout"
    and "Remote_complete hmac now key t tbl = (resp, tbl')"
    and "rq_code rq = t_code t"
    and "rq_context rq = rs_context resp" and "rq_tag rq = rs_tag resp"
    and "now' - now < session_time"
    and "ptype \<noteq> hello"
  shows "rs_context resp = t_context t \<and>
         (\<exists>t'. Remote_cgi hmac session_time now' ptype rq tbl' = Inr t' \<and>
               t_context t' = t_context t \<and>
               (ptype \<noteq> nop \<longrightarrow> Remote_context None t' = Inr (t_context t, t')))"
proof -
  from assms(1) obtain row where row: "find (\<lambda>r. ssncode r = t_code t) tbl = Some row"
    using find_code_exists by blast
  from assms(2,3) have r: "resp = \<lparr> rs_context = t_context t, rs_tag = hmac key (t_context t) \<rparr>"
    and tb: "tbl' = ssn_update (t_code t) now key tbl"
    by (simp_all add: Remote_complete_def)
  have f: "find (\<lambda>r. ssncode r = rq_code rq) tbl' = Some (row\<lparr> ssntime := now, ssnkey := key \<rparr>)"
    unfolding tb assms(4) using row by (rule find_update_code)
  show ?thesis
    using assms(5-8) r by (simp add: Remote_cgi_def f Remote_context_def)
qed

theorem C6_context_round_trip_witness:
  "(7::int) \<in> set (map ssncode [\<lparr> ssnid = 1, ssncode = 7, ssntime = 100, ssnkey = [1], usrid = 1 \<rparr>]) \<and>
   message \<noteq> logout \<and> (105::int) - 101 < 30 \<and> message \<noteq> hello \<and>
   Remote_cgi (\<lambda>k c. k @ c) 30 105 message
     \<lparr> rq_code = 7, rq_context = [9, 8], rq_tag = [2, 9, 8] \<rparr>
     (snd (Remote_complete (\<lambda>k c. k @ c) 101 [2]
        \<lparr> t_code = 7, t_procType = message, t_context = [9, 8] \<rparr>
        [\<lparr> ssnid = 1, ssncode = 7, ssntime = 100, ssnkey = [1], usrid = 1 \<rparr>])) =
   Inr \<lparr> t_code = 7, t_procType = message, t_context = [9, 8] \<rparr>"
proof -
  let ?tbl = "[\<lparr> ssnid = 1, ssncode = 7, ssntime = 100, ssnkey = [1::8 word], usrid = 1 \<rparr>]"
  let ?t = "\<lparr> t_code = 7, t_procType = message, t_context = [9, 8 :: 8 word] \<rparr>"
  let ?rq = "\<lparr> rq_code = 7, rq_context = [9, 8 :: 8 word], rq_tag = [2, 9, 8 :: 8 word] \<rparr>"
  let ?h = "\<lambda>(k :: bytes) (c :: bytes). k @ c"
  have h1: "t_code ?t \<in> set (map ssncode ?tbl)" by simp
  have h2: "t_procType ?t \<noteq> logout" by simp
  have h3: "Remote_complete ?h 101 [2] ?t ?tbl =
              (fst (Remote_complete ?h 101 [2] ?t ?tbl), snd (Remote_complete ?h 101 [2] ?t ?tbl))"
    by simp
  have h4: "rq_code ?rq = t_code ?t" by simp
  have h5: "rq_context ?rq = rs_context (fst (Remote_complete ?h 101 [2] ?t ?tbl))"
    and h6: "rq_tag ?rq = rs_tag (fst (Remote_complete ?h 101 [2] ?t ?tbl))"
    by (simp_all add: Remote_complete_def)
  have h7: "(105::int) - 101 < 30" by simp
  have h8: "message \<noteq> hello" by simp
  from C6_context_round_trip [OF h1 h2 h3 h4 h5 h6 h7 h8]
  obtain t' where t': "Remote_cgi ?h 30 105 message ?rq (snd (Remote_complete ?h 101 [2] ?t ?tbl)) = Inr t'"
    "t_context t' = t_context ?t" by blast
  have "Remote_cgi ?h 30 105 message ?rq (snd (Remote_complete ?h 101 [2] ?t ?tbl)) = Inr ?t"
    by (simp add: Remote_cgi_def Remote_complete_def ssn_update_def)
  with h1 h2 h7 h8 t' show ?thesis by simp
qed

subsection \<open>Session codes\<close>

lemma ssncode_update [simp]: "map ssncode (ssn_update c now key tbl) = map ssncode tbl"
  by (induction tbl) (auto simp: ssn_update_def)

lemma set_ssn_update:
  "r \<in> set (ssn_update c now key tbl) \<Longrightarrow> \<exists>r' \<in> set tbl. ssncode r = ssncode r'"
  by (auto simp: ssn_update_def split: if_splits)

lemma uint24_range: "0 \<le> uint (w :: 24 word) \<and> uint w \<le> 16777215"
  using uint_lt2p [of w] by simp

lemma codes_ok_apply:
  assumes "codes_ok tbl"
  shows "codes_ok (ssn_apply x tbl)"
proof (cases x)
  case (Create draw key now usr)
  with assms show ?thesis
    using uint24_range [of draw]
    by (auto simp: codes_ok_def create_session_def ssn_insert_def)
next
  case (Close code)
  with assms show ?thesis
    by (auto simp: codes_ok_def ssn_delete_def distinct_map_filter)
next
  case (Touch code now key)
  with assms show ?thesis
    by (auto simp: codes_ok_def dest: set_ssn_update)
qed

lemma codes_ok_run: "codes_ok tbl \<Longrightarrow> codes_ok (ssn_run xs tbl)"
  by (induction xs arbitrary: tbl) (simp_all add: codes_ok_apply)

lemma base64_digits4_value:
  assumes "0 \<le> c" "c \<le> 16777215"
  shows "base64_value (base64_digits4 c) = c \<and> list_all base64_digit (base64_digits4 c)"
proof -
  define a where "a = c div 64"
  define b where "b = a div 64"
  define e where "e = b div 64"
  have q1: "c div 64 = a" by (simp only: a_def)
  have "c div 4096 = c div 64 div 64" using zdiv_zmult2_eq [of 64 c 64] by simp
  then have q2: "c div 4096 = b" by (simp only: a_def b_def)
  have "c div 262144 = c div 4096 div 64" using zdiv_zmult2_eq [of 64 c 4096] by simp
  then have q3: "c div 262144 = e" by (simp only: q2 e_def)
  have e: "0 \<le> e" "e < 64" using assms unfolding q3 [symmetric] by simp_all
  then have me: "e mod 64 = e" by simp
  have dg: "base64_digits4 c = [e, b mod 64, a mod 64, c mod 64]"
    by (simp only: base64_digits4_def q1 q2 q3 me)
  have eb: "e * 64 + b mod 64 = b" unfolding e_def by simp
  have ba: "b * 64 + a mod 64 = a" unfolding b_def by simp
  have ac: "a * 64 + c mod 64 = c" unfolding a_def by simp
  have "base64_value [e, b mod 64, a mod 64, c mod 64] =
        ((e * 64 + b mod 64) * 64 + a mod 64) * 64 + c mod 64"
    by (simp add: base64_value_def)
  also have "\<dots> = c" by (simp only: eb ba ac)
  finally have v: "base64_value (base64_digits4 c) = c" by (simp only: dg)
  have "list_all base64_digit [e, b mod 64, a mod 64, c mod 64]"
    using e by (simp add: base64_digit_def)
  then have "list_all base64_digit (base64_digits4 c)" by (simp only: dg)
  with v show ?thesis by blast
qed

lemma length4:
  assumes "length ds = 4"
  obtains d3 d2 d1 d0 where "ds = [d3, d2, d1, d0]"
  using assms by (auto simp: numeral_eq_Suc length_Suc_conv)

lemma base64_value4_range:
  assumes "length ds = 4" "list_all base64_digit ds"
  shows "0 \<le> base64_value ds \<and> base64_value ds \<le> 16777215"
proof -
  from assms(1) obtain d3 d2 d1 d0 where ds: "ds = [d3, d2, d1, d0]" by (rule length4)
  with assms(2) show ?thesis by (simp add: base64_value_def base64_digit_def)
qed

lemma digit_step:
  fixes x d :: int
  assumes "0 \<le> d" "d < 64"
  shows "(x * 64 + d) div 64 = x" and "(x * 64 + d) mod 64 = d"
  using assms by simp_all

lemma digits_back:
  fixes d3 d2 d1 d0 :: int
  assumes r: "0 \<le> d3" "d3 < 64" "0 \<le> d2" "d2 < 64" "0 \<le> d1" "d1 < 64" "0 \<le> d0" "d0 < 64"
  defines "v \<equiv> ((d3 * 64 + d2) * 64 + d1) * 64 + d0"
  shows "v div 262144 mod 64 = d3" "v div 4096 mod 64 = d2" "v div 64 mod 64 = d1" "v mod 64 = d0"
proof -
  define a where "a = (d3 * 64 + d2) * 64 + d1"
  define b where "b = d3 * 64 + d2"
  have va: "v = a * 64 + d0" by (simp only: v_def a_def)
  have ab: "a = b * 64 + d1" by (simp only: a_def b_def)
  have q1: "v div 64 = a" unfolding va using r(7,8) by (rule digit_step)
  have qa: "a div 64 = b" unfolding ab using r(5,6) by (rule digit_step)
  have qb: "b div 64 = d3" unfolding b_def using r(3,4) by (rule digit_step)
  have "v div 4096 = v div 64 div 64"
    using zdiv_zmult2_eq [of 64 v 64] by simp
  then have q2: "v div 4096 = b" by (simp only: q1 qa)
  have "v div 262144 = v div 4096 div 64"
    using zdiv_zmult2_eq [of 64 v 4096] by simp
  then have q3: "v div 262144 = d3" by (simp only: q2 qb)
  show "v mod 64 = d0" unfolding va using r(7,8) by (rule digit_step)
  show "v div 64 mod 64 = d1" unfolding q1 ab using r(5,6) by (rule digit_step)
  show "v div 4096 mod 64 = d2" unfolding q2 b_def using r(3,4) by (rule digit_step)
  show "v div 262144 mod 64 = d3" unfolding q3 using r(1,2) by simp
qed

lemma base64_value4_digits:
  assumes "length ds = 4" "list_all base64_digit ds"
  shows "base64_digits4 (base64_value ds) = ds"
proof -
  from assms(1) obtain d3 d2 d1 d0 where ds: "ds = [d3, d2, d1, d0]" by (rule length4)
  with assms(2) have r: "0 \<le> d3" "d3 < 64" "0 \<le> d2" "d2 < 64" "0 \<le> d1" "d1 < 64"
    "0 \<le> d0" "d0 < 64" by (simp_all add: base64_digit_def)
  have v: "base64_value [d3, d2, d1, d0] = ((d3 * 64 + d2) * 64 + d1) * 64 + d0"
    by (simp add: base64_value_def)
  show ?thesis
    unfolding ds v base64_digits4_def digits_back [OF r] by (rule refl)
qed

text \<open>
  C8. In every session table the remote server can build from the empty one, the session
  codes are pairwise distinct and each lies in [0, 16777215]. 64^4 is 16777216, and the
  integers in [0, 16777215] are exactly the values of the lists of four base-64 digits; two
  such lists with the same value are equal. So each stored code is the value of its four
  base-64 digits.
\<close>

theorem C8_session_code_four_digits:
  "distinct (map ssncode (ssn_run xs [])) \<and>
   (\<forall>r \<in> set (ssn_run xs []).
      0 \<le> ssncode r \<and> ssncode r \<le> 16777215 \<and>
      length (base64_digits4 (ssncode r)) = 4 \<and>
      list_all base64_digit (base64_digits4 (ssncode r)) \<and>
      base64_value (base64_digits4 (ssncode r)) = ssncode r) \<and>
   (64 :: int) ^ 4 = 16777216 \<and>
   ((0 \<le> c \<and> c \<le> 16777215) \<longleftrightarrow>
      (\<exists>ds. length ds = 4 \<and> list_all base64_digit ds \<and> base64_value ds = c)) \<and>
   (length ds = 4 \<and> list_all base64_digit ds \<and> length ds' = 4 \<and> list_all base64_digit ds' \<and>
    base64_value ds = base64_value ds' \<longrightarrow> ds = ds')"
proof -
  have "codes_ok []" by (simp add: codes_ok_def)
  then have ok: "codes_ok (ssn_run xs [])" by (rule codes_ok_run)
  then have a: "distinct (map ssncode (ssn_run xs []))" by (simp add: codes_ok_def)
  have b: "\<forall>r \<in> set (ssn_run xs []).
      0 \<le> ssncode r \<and> ssncode r \<le> 16777215 \<and>
      length (base64_digits4 (ssncode r)) = 4 \<and>
      list_all base64_digit (base64_digits4 (ssncode r)) \<and>
      base64_value (base64_digits4 (ssncode r)) = ssncode r"
  proof
    fix r assume "r \<in> set (ssn_run xs [])"
    with ok have r: "0 \<le> ssncode r" "ssncode r \<le> 16777215" by (simp_all add: codes_ok_def)
    have "length (base64_digits4 (ssncode r)) = 4" by (simp add: base64_digits4_def)
    with r base64_digits4_value [OF r]
    show "0 \<le> ssncode r \<and> ssncode r \<le> 16777215 \<and>
      length (base64_digits4 (ssncode r)) = 4 \<and>
      list_all base64_digit (base64_digits4 (ssncode r)) \<and>
      base64_value (base64_digits4 (ssncode r)) = ssncode r" by blast
  qed
  have c: "(0 \<le> c \<and> c \<le> 16777215) \<longleftrightarrow>
      (\<exists>ds. length ds = 4 \<and> list_all base64_digit ds \<and> base64_value ds = c)"
  proof
    assume r: "0 \<le> c \<and> c \<le> 16777215"
    then have "base64_value (base64_digits4 c) = c \<and> list_all base64_digit (base64_digits4 c)"
      by (intro base64_digits4_value) simp_all
    moreover have "length (base64_digits4 c) = 4" by (simp add: base64_digits4_def)
    ultimately show "\<exists>ds. length ds = 4 \<and> list_all base64_digit ds \<and> base64_value ds = c"
      by blast
  next
    assume "\<exists>ds. length ds = 4 \<and> list_all base64_digit ds \<and> base64_value ds = c"
    then show "0 \<le> c \<and> c \<le> 16777215" using base64_value4_range by blast
  qed
  have d: "length ds = 4 \<and> list_all base64_digit ds \<and> length ds' = 4 \<and>
           list_all base64_digit ds' \<and> base64_value ds = base64_value ds' \<longrightarrow> ds = ds'"
  proof (intro impI, elim conjE)
    assume h: "length ds = 4" "list_all base64_digit ds" "length ds' = 4"
      "list_all base64_digit ds'" "base64_value ds = base64_value ds'"
    have "ds = base64_digits4 (base64_value ds)"
      using h(1,2) by (rule base64_value4_digits [symmetric])
    also have "\<dots> = base64_digits4 (base64_value ds')" by (simp only: h(5))
    also have "\<dots> = ds'" using h(3,4) by (rule base64_value4_digits)
    finally show "ds = ds'" .
  qed
  have e: "(64 :: int) ^ 4 = 16777216" by simp
  show ?thesis by (intro conjI a b c d e)
qed

theorem C8_session_code_four_digits_witness:
  "map ssncode (ssn_run [Create 16777215 [1] 10 1, Create 16777215 [2] 11 1, Create 5 [3] 12 2] []) =
     [16777215, 5] \<and>
   base64_digits4 16777215 = [63, 63, 63, 63] \<and>
   base64_value [63, 63, 63, 63] = 16777215 \<and>
   base64_digits4 5 = [0, 0, 0, 5]"
proof -
  let ?xs = "[Create 16777215 [1] 10 1, Create 16777215 [2] 11 1, Create 5 [3] 12 2]"
  have m: "ssn_run ?xs [] =
     [\<lparr> ssnid = 1, ssncode = 16777215, ssntime = 10, ssnkey = [1], usrid = 1 \<rparr>,
      \<lparr> ssnid = 2, ssncode = 5, ssntime = 12, ssnkey = [3], usrid = 2 \<rparr>]"
    by (simp add: create_session_def ssn_insert_def)
  have d: "base64_digits4 16777215 = [63, 63, 63, 63]" "base64_digits4 5 = [0, 0, 0, 5]"
    by (simp_all add: base64_digits4_def)
  note T = C8_session_code_four_digits [of ?xs 16777215 "[63, 63, 63, 63]" "[63, 63, 63, 63]"]
  note T2 = T [THEN conjunct2, THEN conjunct1, unfolded m]
  have "base64_value (base64_digits4 16777215) = 16777215"
    using T2 by simp
  then have v: "base64_value [63, 63, 63, 63] = 16777215" unfolding d .
  from m d v show ?thesis by simp
qed

end
